theory Spec2Isabelle
  imports Main "HOL-Library.Char_ord"
begin

chapter \<open>AutoDNS: from the container inventory to DNS answers\<close>

text \<open>
  AutoDNS answers DNS queries of type A from a table it builds once, at start, from the
  containers the Docker daemon lists. This theory embeds the program's latest revision:
  \<open>discoverTraefik\<close> (the address of the reverse proxy), \<open>discover\<close> (the services of all
  containers), the table \<open>main\<close> builds from them and the handler it registers, together
  with the library functions they call: the regular expression of the Traefik rule label
  as Go's \<open>regexp\<close> matches it, \<open>net.ParseIP\<close>, \<open>net.IP.String\<close> and the \<open>SetReply\<close> of the
  DNS library.
\<close>

section \<open>Text: bytes, runes and character classes\<close>

text \<open>
  A Go string is a sequence of bytes; it is modelled as a \<open>string\<close> (a list of 8-bit
  characters). The regular-expression engine reads its input rune by rune: the wildcard
  \<open>.\<close> consumes one UTF-8 encoded code point, or a single byte where the bytes are not
  valid UTF-8 (\<open>utf8.DecodeRuneInString\<close> reports width 1 for those).
\<close>

definition byte_of :: "char \<Rightarrow> nat" where
  "byte_of c = of_char c"

text \<open>\<open>follows rs s\<close>: the first bytes of \<open>s\<close> exist and lie in the given ranges, in order.\<close>

fun follows :: "(nat \<times> nat) list \<Rightarrow> string \<Rightarrow> bool" where
  "follows [] s = True"
| "follows (r # rs) [] = False"
| "follows (r # rs) (c # cs) = (fst r \<le> byte_of c \<and> byte_of c \<le> snd r \<and> follows rs cs)"

text \<open>
  The width \<open>utf8.DecodeRuneInString\<close> reports for the rune at the head of the input,
  following its table of lead bytes and accepted ranges of the second byte.
\<close>

fun rune_size :: "string \<Rightarrow> nat" where
  "rune_size [] = 0"
| "rune_size (c # s) =
     (let b = byte_of c in
      if b < 0x80 then 1
      else if b < 0xC2 then 1
      else if b \<le> 0xDF then (if follows [(0x80, 0xBF)] s then 2 else 1)
      else if b = 0xE0 then (if follows [(0xA0, 0xBF), (0x80, 0xBF)] s then 3 else 1)
      else if b = 0xED then (if follows [(0x80, 0x9F), (0x80, 0xBF)] s then 3 else 1)
      else if b \<le> 0xEF then (if follows [(0x80, 0xBF), (0x80, 0xBF)] s then 3 else 1)
      else if b = 0xF0 then (if follows [(0x90, 0xBF), (0x80, 0xBF), (0x80, 0xBF)] s then 4 else 1)
      else if b \<le> 0xF3 then (if follows [(0x80, 0xBF), (0x80, 0xBF), (0x80, 0xBF)] s then 4 else 1)
      else if b = 0xF4 then (if follows [(0x80, 0x8F), (0x80, 0xBF), (0x80, 0xBF)] s then 4 else 1)
      else 1)"

definition is_digit :: "char \<Rightarrow> bool" where
  "is_digit c \<longleftrightarrow> CHR ''0'' \<le> c \<and> c \<le> CHR ''9''"

definition is_lower :: "char \<Rightarrow> bool" where
  "is_lower c \<longleftrightarrow> CHR ''a'' \<le> c \<and> c \<le> CHR ''z''"

definition is_upper :: "char \<Rightarrow> bool" where
  "is_upper c \<longleftrightarrow> CHR ''A'' \<le> c \<and> c \<le> CHR ''Z''"

text \<open>The class \<open>[a-zA-Z]\<close>.\<close>

definition is_letter :: "char \<Rightarrow> bool" where
  "is_letter c \<longleftrightarrow> is_lower c \<or> is_upper c"

text \<open>The class \<open>[a-zA-Z0-9]\<close>.\<close>

definition is_letter_digit :: "char \<Rightarrow> bool" where
  "is_letter_digit c \<longleftrightarrow> is_lower c \<or> is_upper c \<or> is_digit c"

text \<open>The class \<open>[a-zA-Z0-9\-]\<close>.\<close>

definition is_letter_digit_dash :: "char \<Rightarrow> bool" where
  "is_letter_digit_dash c \<longleftrightarrow> is_lower c \<or> is_upper c \<or> is_digit c \<or> c = CHR ''-''"

text \<open>The Perl class \<open>\w\<close>, which Go reads as \<open>[0-9A-Za-z_]\<close>.\<close>

definition is_word :: "char \<Rightarrow> bool" where
  "is_word c \<longleftrightarrow> is_digit c \<or> is_upper c \<or> is_lower c \<or> c = CHR ''_''"

text \<open>The class \<open>[\w\-\_]\<close> of the router name.\<close>

definition is_router_char :: "char \<Rightarrow> bool" where
  "is_router_char c \<longleftrightarrow> is_word c \<or> c = CHR ''-'' \<or> c = CHR ''_''"

section \<open>The regular expression of the Traefik rule label\<close>

text \<open>
  A matcher maps an input to the inputs that remain after each way of matching a prefix
  of it, in the order in which a backtracking engine tries them. Go's \<open>regexp\<close> returns
  the match such an engine finds first (leftmost, then by preference: the first
  alternative before the second, a greedy repetition as long as possible).
\<close>

type_synonym matcher = "string \<Rightarrow> string list"

fun lit :: "string \<Rightarrow> matcher" where
  "lit [] s = [s]"
| "lit (p # ps) [] = []"
| "lit (p # ps) (c # cs) = (if p = c then lit ps cs else [])"

definition cls :: "(char \<Rightarrow> bool) \<Rightarrow> matcher" where
  "cls P s = (case s of [] \<Rightarrow> [] | c # r \<Rightarrow> if P c then [r] else [])"

text \<open>The wildcard \<open>.\<close>: any rune but the newline.\<close>

definition any_not_nl :: matcher where
  "any_not_nl s =
     (case s of [] \<Rightarrow> [] | c # r \<Rightarrow> if c = CHR 0x0A then [] else [drop (rune_size s) s])"

definition seq :: "matcher \<Rightarrow> matcher \<Rightarrow> matcher" where
  "seq m n s = concat (map n (m s))"

definition alt :: "matcher \<Rightarrow> matcher \<Rightarrow> matcher" where
  "alt m n s = m s @ n s"

text \<open>
  The greedy repetition \<open>m*\<close>: one more round of \<open>m\<close> first, the empty match last. A
  round that consumes nothing is not repeated.
\<close>

function star :: "matcher \<Rightarrow> matcher" where
  "star m s = concat (map (star m) (filter (\<lambda>r. length r < length s) (m s))) @ [s]"
  by pat_completeness auto
termination
  by (relation "measure (\<lambda>(m, s). length s)") auto

declare star.simps [simp del]

definition plus :: "matcher \<Rightarrow> matcher" where
  "plus m = seq m (star m)"

text \<open>\<open>(?:[a-zA-Z]|[a-zA-Z][a-zA-Z0-9\-]*[a-zA-Z0-9])\<close>: one label of a domain name.\<close>

definition rx_label :: matcher where
  "rx_label =
     alt (cls is_letter)
         (seq (cls is_letter) (seq (star (cls is_letter_digit_dash)) (cls is_letter_digit)))"

text \<open>The second group: labels, each followed by a dot, and a last label.\<close>

definition rx_fqdn :: matcher where
  "rx_fqdn = seq (star (seq rx_label (lit ''.''))) rx_label"

text \<open>The first group: \<open>[\w\-\_]+\<close>.\<close>

definition rx_router :: matcher where
  "rx_router = plus (cls is_router_char)"

text \<open>\<open>traefik.http.routers.\<close>, whose dots are wildcards.\<close>

definition rx_head :: matcher where
  "rx_head =
     seq (lit ''traefik'') (seq any_not_nl (seq (lit ''http'') (seq any_not_nl
       (seq (lit ''routers'') any_not_nl))))"

text \<open>\<open>.rule=Host\(`\<close>, between the groups, and \<open>`\)\<close> after the second.\<close>

definition rx_mid :: matcher where
  "rx_mid = seq any_not_nl (lit ''rule=Host(`'')"

definition rx_tail :: matcher where
  "rx_tail = lit ''`)''"

text \<open>The text consumed between an input and a later remainder of it.\<close>

definition consumed :: "string \<Rightarrow> string \<Rightarrow> string" where
  "consumed a b = take (length a - length b) a"

text \<open>
  \<open>TraefikLabelRegex\<close> anchored at the head of the input: every match, as the full
  match, the router name and the host name, in the engine's order.
\<close>

definition TraefikLabelRegex :: "string \<Rightarrow> string list list" where
  "TraefikLabelRegex s =
     [[consumed s e, consumed a b, consumed c d].
        a \<leftarrow> rx_head s, b \<leftarrow> rx_router a, c \<leftarrow> rx_mid b, d \<leftarrow> rx_fqdn c, e \<leftarrow> rx_tail d]"

text \<open>
  \<open>traefikRe.FindStringSubmatch\<close>: the first match at the leftmost position that has
  one, as \<open>[full, group 1, group 2]\<close>; the empty list is Go's \<open>nil\<close>. The expression
  starts with the ASCII letter \<open>t\<close>, which in UTF-8 is never inside a longer rune, so
  trying every byte position is trying every rune position.
\<close>

fun FindStringSubmatch :: "string \<Rightarrow> string list" where
  "FindStringSubmatch [] = (case TraefikLabelRegex [] of m # ms \<Rightarrow> m | [] \<Rightarrow> [])"
| "FindStringSubmatch (c # s) =
     (case TraefikLabelRegex (c # s) of m # ms \<Rightarrow> m | [] \<Rightarrow> FindStringSubmatch s)"

section \<open>Addresses: \<open>net.ParseIP\<close> and \<open>net.IP.String\<close>\<close>

text \<open>
  A \<open>net.IP\<close> is a slice of bytes; the empty list stands for \<open>nil\<close>. A byte is a natural
  number below 256, and every conversion to a byte is written as \<open>mod 256\<close>.
\<close>

type_synonym IP = "nat list"

text \<open>
  \<open>parseIPv4Fields\<close>: four decimal fields separated by dots, none above 255, none with a
  leading zero. The loop runs over the remaining text and keeps the byte before it
  (\<open>prev\<close>, \<open>None\<close> at index 0), the value and the number of digits of the current field,
  and the number of fields stored.
\<close>

fun parseIPv4Fields_loop ::
  "string \<Rightarrow> char option \<Rightarrow> nat \<Rightarrow> nat \<Rightarrow> nat \<Rightarrow> nat list \<Rightarrow> nat list option" where
  "parseIPv4Fields_loop [] prev val pos digLen fields =
     (if pos < 3 then None else Some (fields[3 := val mod 256]))"
| "parseIPv4Fields_loop (c # r) prev val pos digLen fields =
     (if is_digit c then
        (if digLen = 1 \<and> val = 0 then None
         else let val' = val * 10 + (byte_of c - byte_of CHR ''0'') in
           if val' > 255 then None
           else parseIPv4Fields_loop r (Some c) val' pos (digLen + 1) fields)
      else if c = CHR ''.'' then
        (if prev = None \<or> r = [] \<or> prev = Some CHR ''.'' then None
         else if pos = 3 then None
         else parseIPv4Fields_loop r (Some c) 0 (pos + 1) 0 (fields[pos := val mod 256]))
      else None)"

definition parseIPv4Fields :: "string \<Rightarrow> nat list option" where
  "parseIPv4Fields s = parseIPv4Fields_loop s None 0 0 0 [0, 0, 0, 0]"

text \<open>\<open>Addr.As16\<close> of an IPv4 address: the IPv4-mapped IPv6 form.\<close>

definition As16 :: "nat list \<Rightarrow> IP" where
  "As16 f = [0, 0, 0, 0, 0, 0, 0, 0, 0, 0, 0xFF, 0xFF] @ f"

definition hex_val :: "char \<Rightarrow> nat option" where
  "hex_val c =
     (if CHR ''0'' \<le> c \<and> c \<le> CHR ''9'' then Some (byte_of c - byte_of CHR ''0'')
      else if CHR ''a'' \<le> c \<and> c \<le> CHR ''f'' then Some (byte_of c - byte_of CHR ''a'' + 10)
      else if CHR ''A'' \<le> c \<and> c \<le> CHR ''F'' then Some (byte_of c - byte_of CHR ''A'' + 10)
      else None)"

text \<open>
  The inner loop of \<open>parseIPv6\<close>: the hexadecimal number at the head of the text, as the
  number of digits read and their value; an error at a fifth digit.
\<close>

fun hex_loop :: "string \<Rightarrow> nat \<Rightarrow> nat \<Rightarrow> (nat \<times> nat) option" where
  "hex_loop [] off acc = Some (off, acc)"
| "hex_loop (c # r) off acc =
     (case hex_val c of
        None \<Rightarrow> Some (off, acc)
      | Some v \<Rightarrow>
          let acc' = acc * 16 + v in
          if off > 3 then None
          else if acc' > 0xFFFF then None
          else hex_loop r (off + 1) acc')"

text \<open>
  The outer loop of \<open>parseIPv6\<close> over the state \<open>(ip, i, ellipsis, s)\<close>: the sixteen
  bytes, the number of bytes written, the position of \<open>::\<close> if one was read, and the
  remaining text. It returns the state at which the Go loop ends, or \<open>None\<close> where it
  returns an error.
\<close>

function parseIPv6_loop ::
  "IP \<Rightarrow> nat \<Rightarrow> nat option \<Rightarrow> string \<Rightarrow> (IP \<times> nat \<times> nat option \<times> string) option" where
  "parseIPv6_loop ip i ellipsis s =
     (if \<not> i < 16 then Some (ip, i, ellipsis, s)
      else case hex_loop s 0 0 of
        None \<Rightarrow> None
      | Some (off, acc) \<Rightarrow>
          if off = 0 then None
          else if off < length s \<and> s ! off = CHR ''.'' then
            (if ellipsis = None \<and> i \<noteq> 12 then None
             else if i + 4 > 16 then None
             else case parseIPv4Fields s of
               None \<Rightarrow> None
             | Some f \<Rightarrow>
                 Some (ip[i := f ! 0, i + 1 := f ! 1, i + 2 := f ! 2, i + 3 := f ! 3],
                       i + 4, ellipsis, []))
          else
            let ip' = ip[i := (acc div 256) mod 256, i + 1 := acc mod 256];
                s' = drop off s
            in if s' = [] then Some (ip', i + 2, ellipsis, s')
               else if hd s' \<noteq> CHR '':'' then None
               else if length s' = 1 then None
               else if hd (tl s') = CHR '':'' then
                 (if ellipsis \<noteq> None then None
                  else if tl (tl s') = [] then Some (ip', i + 2, Some (i + 2), [])
                  else parseIPv6_loop ip' (i + 2) (Some (i + 2)) (tl (tl s')))
               else parseIPv6_loop ip' (i + 2) ellipsis (tl s'))"
  by pat_completeness auto
termination
  by (relation "measure (\<lambda>(ip, i, ellipsis, s). 16 - i)") auto

declare parseIPv6_loop.simps [simp del]

text \<open>
  Expanding the ellipsis: the bytes from \<open>ellipsis\<close> to \<open>i - 1\<close> move up by \<open>n = 16 - i\<close>,
  the highest first, and the gap is cleared.
\<close>

definition expand_ellipsis :: "IP \<Rightarrow> nat \<Rightarrow> nat \<Rightarrow> IP" where
  "expand_ellipsis ip i ellipsis =
     (let n = 16 - i;
          moved = fold (\<lambda>j a. a[j + n := a ! j]) (rev [ellipsis..<i]) ip
      in fold (\<lambda>j a. a[j := 0]) [ellipsis..<ellipsis + n] moved)"

text \<open>\<open>parseIPv6\<close>: the address and its zone.\<close>

definition parseIPv6 :: "string \<Rightarrow> (IP \<times> string) option" where
  "parseIPv6 inp =
     (let s = takeWhile (\<lambda>c. c \<noteq> CHR ''%'') inp;
          zone = (if CHR ''%'' \<in> set inp then tl (dropWhile (\<lambda>c. c \<noteq> CHR ''%'') inp) else [])
      in if CHR ''%'' \<in> set inp \<and> zone = [] then None
         else
           let lead = (length s \<ge> 2 \<and> s ! 0 = CHR '':'' \<and> s ! 1 = CHR '':'');
               ellipsis = (if lead then Some 0 else None);
               s1 = (if lead then drop 2 s else s)
           in if lead \<and> s1 = [] then Some (replicate 16 0, zone)
              else case parseIPv6_loop (replicate 16 0) 0 ellipsis s1 of
                None \<Rightarrow> None
              | Some (ip, i, ellipsis', s') \<Rightarrow>
                  if s' \<noteq> [] then None
                  else if i < 16 then
                    (case ellipsis' of
                       None \<Rightarrow> None
                     | Some e \<Rightarrow> Some (expand_ellipsis ip i e, zone))
                  else if ellipsis' \<noteq> None then None
                  else Some (ip, zone))"

text \<open>
  \<open>netip.ParseAddr\<close>: the first dot, colon or percent sign of the text decides how it is
  read.
\<close>

definition ParseAddr :: "string \<Rightarrow> (IP \<times> string) option" where
  "ParseAddr s =
     (case List.find (\<lambda>c. c = CHR ''.'' \<or> c = CHR '':'' \<or> c = CHR ''%'') s of
        None \<Rightarrow> None
      | Some c \<Rightarrow>
          if c = CHR ''.'' then map_option (\<lambda>f. (As16 f, [])) (parseIPv4Fields s)
          else if c = CHR '':'' then parseIPv6 s
          else None)"

text \<open>\<open>net.ParseIP\<close>: sixteen bytes, or \<open>nil\<close> for a text that is no address or has a zone.\<close>

definition ParseIP :: "string \<Rightarrow> IP" where
  "ParseIP s =
     (case ParseAddr s of
        None \<Rightarrow> []
      | Some (ip, zone) \<Rightarrow> if zone \<noteq> [] then [] else ip)"

text \<open>Decimal and hexadecimal numerals without leading zeros.\<close>

function decimal :: "nat \<Rightarrow> string" where
  "decimal n =
     (if n < 10 then [''0123456789'' ! n]
      else decimal (n div 10) @ [''0123456789'' ! (n mod 10)])"
  by pat_completeness auto
termination
  by (relation "measure (\<lambda>n. n)") auto

declare decimal.simps [simp del]

function appendHex :: "nat \<Rightarrow> string" where
  "appendHex n =
     (if n < 16 then [''0123456789abcdef'' ! n]
      else appendHex (n div 16) @ [''0123456789abcdef'' ! (n mod 16)])"
  by pat_completeness auto
termination
  by (relation "measure (\<lambda>n. n)") auto

declare appendHex.simps [simp del]

text \<open>\<open>hexString\<close>: two hexadecimal digits for every byte.\<close>

definition hexString :: "IP \<Rightarrow> string" where
  "hexString ip =
     concat (map (\<lambda>b. [''0123456789abcdef'' ! (b div 16), ''0123456789abcdef'' ! (b mod 16)]) ip)"

text \<open>\<open>IP.To4\<close>: the four bytes of an IPv4 address, or \<open>nil\<close>.\<close>

definition To4 :: "IP \<Rightarrow> IP" where
  "To4 ip =
     (if length ip = 4 then ip
      else if length ip = 16 \<and> take 10 ip = replicate 10 0 \<and> ip ! 10 = 0xFF \<and> ip ! 11 = 0xFF
        then drop 12 ip
      else [])"

text \<open>Text joined by a separator.\<close>

fun join :: "string \<Rightarrow> string list \<Rightarrow> string" where
  "join sep [] = []"
| "join sep [x] = x"
| "join sep (x # y # ys) = x @ sep @ join sep (y # ys)"

definition dotted :: "nat list \<Rightarrow> string" where
  "dotted f = join ''.'' (map decimal f)"

text \<open>The eight 16-bit groups of a 16-byte address.\<close>

definition v6u16 :: "IP \<Rightarrow> nat list" where
  "v6u16 ip = map (\<lambda>k. ip ! (2 * k) * 256 + ip ! (2 * k + 1)) [0..<8]"

text \<open>
  The leftmost longest run of at least two zero groups, as \<open>(zeroStart, zeroEnd)\<close>;
  \<open>(255, 255)\<close> when there is none.
\<close>

definition zero_run :: "nat list \<Rightarrow> nat \<times> nat" where
  "zero_run g =
     fold (\<lambda>i (zeroStart, zeroEnd).
             let j = i + length (takeWhile (\<lambda>x. x = 0) (drop i g)) in
             if j - i \<ge> 2 \<and> j - i > zeroEnd - zeroStart then (i, j) else (zeroStart, zeroEnd))
          [0..<8] (255, 255)"

text \<open>The text of an IPv6 address: the groups in hexadecimal, the zero run as \<open>::\<close>.\<close>

definition string6 :: "IP \<Rightarrow> string" where
  "string6 ip =
     (let g = v6u16 ip; (zeroStart, zeroEnd) = zero_run g in
      if zeroStart < 8
        then join '':'' (map appendHex (take zeroStart g)) @ ''::'' @
             join '':'' (map appendHex (drop zeroEnd g))
      else join '':'' (map appendHex g))"

text \<open>\<open>net.IP.String\<close>.\<close>

definition IP_String :: "IP \<Rightarrow> string" where
  "IP_String ip =
     (if length ip = 0 then ''<nil>''
      else if length ip \<noteq> 4 \<and> length ip \<noteq> 16 then ''?'' @ hexString ip
      else if length (To4 ip) = 4 then dotted (To4 ip)
      else string6 ip)"


section \<open>The inventory, the services and the log\<close>

text \<open>
  A container of the inventory, with the fields of \<open>container.Summary\<close> the program
  reads. \<open>Labels\<close> and \<open>Networks\<close> are Go maps: a lookup is \<open>map_of\<close>, and the list gives
  the order in which one \<open>range\<close> over the map visits its entries (Go leaves that order
  open, so a statement about the program holds for every order). The keys of a Go map
  are distinct (\<open>wf_container\<close>). The pointers \<open>NetworkSettings\<close> and the endpoints
  of \<open>Networks\<close> are taken to be set, as the Docker daemon delivers them.
\<close>

record EndpointSettings =
  EndpointIPAddress :: string

record Container =
  Names :: "string list"
  Image :: string
  Labels :: "(string \<times> string) list"
  Networks :: "(string \<times> EndpointSettings) list"

definition wf_container :: "Container \<Rightarrow> bool" where
  "wf_container c \<longleftrightarrow> distinct (map fst (Labels c)) \<and> distinct (map fst (Networks c))"

record Service =
  ContainerName :: string
  HostnameLabel :: string
  IPAddress :: IP

datatype Level = DebugLevel | InfoLevel | WarnLevel | ErrorLevel

type_synonym Log = "(Level \<times> string) list"

text \<open>
  How a run ends without a result: \<open>container.Names[0]\<close> on a container without a name
  panics, and \<open>log.Fatal\<close> ends the process.
\<close>

datatype error = IndexOutOfRange | FatalExit string

text \<open>
  \<open>getContainers\<close> asks the Docker daemon: the answer is an error or the inventory.
  \<open>discover\<close> and \<open>discoverTraefik\<close> each ask once; the model gives both the same answer.
\<close>

type_synonym Docker = "string + Container list"

section \<open>\<open>discoverTraefik\<close>\<close>

definition imageName :: "Container \<Rightarrow> string" where
  "imageName c = takeWhile (\<lambda>x. x \<noteq> CHR '':'') (Image c)"

text \<open>The network a container's address is read on.\<close>

definition selected_network :: "Container \<Rightarrow> string" where
  "selected_network c =
     (case map_of (Labels c) ''com.autodns.network'' of None \<Rightarrow> ''bridge'' | Some n \<Rightarrow> n)"

text \<open>The override label, where \<open>ok && ipAddressLabel != ""\<close> holds.\<close>

definition ip_override :: "Container \<Rightarrow> string option" where
  "ip_override c =
     (case map_of (Labels c) ''com.autodns.ip'' of
        None \<Rightarrow> None
      | Some l \<Rightarrow> if l \<noteq> [] then Some l else None)"

text \<open>
  The loop of \<open>discoverTraefik\<close>. Every path through the body of a container with the
  image name \<open>traefik\<close> reads \<open>container.Names[0]\<close> before it returns or goes on, so
  the model reads it first.
\<close>

fun discoverTraefik_loop :: "Container list \<Rightarrow> Log \<Rightarrow> error + (Service option \<times> Log)" where
  "discoverTraefik_loop [] lg = Inr (None, lg)"
| "discoverTraefik_loop (c # cs) lg =
     (if imageName c \<noteq> ''traefik'' then discoverTraefik_loop cs lg
      else case Names c of
        [] \<Rightarrow> Inl IndexOutOfRange
      | name # names \<Rightarrow>
          (case ip_override c of
             Some ipAddressLabel \<Rightarrow>
               Inr (Some \<lparr>ContainerName = name, HostnameLabel = ''traefik'',
                           IPAddress = ParseIP ipAddressLabel\<rparr>,
                    lg @ [(InfoLevel, ''Container `'' @ name @
                             ''` has its own IP address specified: `'' @ ipAddressLabel @ ''`'')])
           | None \<Rightarrow>
               let network = selected_network c in
               (case map_of (Networks c) network of
                  None \<Rightarrow>
                    discoverTraefik_loop cs
                      (lg @ [(WarnLevel, ''Container `'' @ name @ ''` is not on network `'' @
                                network @ ''`, skipping'')])
                | Some ep \<Rightarrow>
                    let ip = EndpointIPAddress ep in
                    if ip = [] then
                      discoverTraefik_loop cs
                        (lg @ [(WarnLevel, ''Container `'' @ name @
                                  ''` does not have an IP address in network `'' @ network @
                                  ''`, skipping'')])
                    else
                      Inr (Some \<lparr>ContainerName = name, HostnameLabel = ''traefik'',
                                  IPAddress = ParseIP ip\<rparr>,
                           lg @ [(InfoLevel, ''Found Traefik service in container `'' @ name @
                                    ''` with IP `'' @ ip @ ''` on network `'' @ network @
                                    ''`'')]))))"

definition discoverTraefik :: "Docker \<Rightarrow> Log \<Rightarrow> error + (Service option \<times> Log)" where
  "discoverTraefik docker lg =
     (case docker of
        Inl err \<Rightarrow> Inl (FatalExit ''Failed to get Docker containers'')
      | Inr containers \<Rightarrow>
          discoverTraefik_loop containers
            (lg @ [(InfoLevel, ''Searching for Traefik services...'')]))"

section \<open>\<open>discover\<close>\<close>

text \<open>The variables the loop over one container's labels reads and writes.\<close>

record scan =
  hostname :: string
  routed :: bool
  discovered :: "Service list"
  logged :: Log

text \<open>
  One round of the loop over the labels. Its \<open>continue\<close> statements go on with the next
  label: nothing in the loop leaves it early.
\<close>

definition label_step ::
  "Service option \<Rightarrow> Container \<Rightarrow> string \<times> string \<Rightarrow> scan \<Rightarrow> error + scan" where
  "label_step traefikIP c lv st =
     (let matches = FindStringSubmatch (fst lv @ ''='' @ snd lv) in
      if length matches = 3 then
        (case Names c of
           [] \<Rightarrow> Inl IndexOutOfRange
         | name # names \<Rightarrow>
             let h = matches ! 2;
                 lg = logged st @
                   [(DebugLevel, ''Extracted Traefik hostname `'' @ h @ ''` for service `'' @
                       matches ! 1 @ ''` from container `'' @ name @ ''`'')]
             in (case traefikIP of
                   None \<Rightarrow>
                     Inr (st\<lparr>hostname := h,
                            logged := lg @
                              [(WarnLevel, ''Container `'' @ name @ ''` has Traefik hostname `'' @
                                  h @ ''`, but no Traefik service discovered, skipping'')]\<rparr>)
                 | Some t \<Rightarrow>
                     Inr (st\<lparr>hostname := h,
                            routed := True,
                            discovered := discovered st @
                              [\<lparr>ContainerName = name, HostnameLabel = h,
                                IPAddress = IPAddress t\<rparr>],
                            logged := lg @
                              [(DebugLevel, ''Container `'' @ name @ ''` has Traefik hostname `'' @
                                  h @ ''`, routing to Traefik IP `'' @
                                  IP_String (IPAddress t) @ ''`'')]\<rparr>)))
      else Inr st)"

fun label_loop ::
  "Service option \<Rightarrow> Container \<Rightarrow> (string \<times> string) list \<Rightarrow> scan \<Rightarrow> error + scan" where
  "label_loop traefikIP c [] st = Inr st"
| "label_loop traefikIP c (lv # ls) st =
     (case label_step traefikIP c lv st of
        Inl e \<Rightarrow> Inl e
      | Inr st' \<Rightarrow> label_loop traefikIP c ls st')"

text \<open>
  The part of the loop body of \<open>discover\<close> before \<open>if routed\<close>: the explicit label, or
  the scan of the labels when it is absent or empty.
\<close>

definition find_hostname ::
  "Service option \<Rightarrow> Container \<Rightarrow> Service list \<Rightarrow> Log \<Rightarrow> error + scan" where
  "find_hostname traefikIP c ds lg =
     (let found = map_of (Labels c) ''com.autodns.hostname'';
          ok = (found \<noteq> None);
          h = (case found of None \<Rightarrow> [] | Some v \<Rightarrow> v);
          st = \<lparr>hostname = h, routed = False, discovered = ds, logged = lg\<rparr>
      in if \<not> ok \<or> h = [] then label_loop traefikIP c (Labels c) st else Inr st)"

text \<open>
  The part of the loop body of \<open>discover\<close> after the host name \<open>h\<close> is known and the
  container was not routed to the proxy: the override label, or else the address on the
  selected network. Each of its paths reads \<open>container.Names[0]\<close>, so the model reads
  it first.
\<close>

definition self_resolve ::
  "Container \<Rightarrow> string \<Rightarrow> Service list \<times> Log \<Rightarrow> error + (Service list \<times> Log)" where
  "self_resolve c h acc =
     (case Names c of
        [] \<Rightarrow> Inl IndexOutOfRange
      | name # names \<Rightarrow>
          (case ip_override c of
             Some ipAddressLabel \<Rightarrow>
               Inr (fst acc @
                      [\<lparr>ContainerName = name, HostnameLabel = h,
                        IPAddress = ParseIP ipAddressLabel\<rparr>],
                    snd acc @
                      [(InfoLevel, ''Container `'' @ name @
                          ''` has its own IP address specified: `'' @ ipAddressLabel @ ''`'')])
           | None \<Rightarrow>
               let network = selected_network c in
               (case map_of (Networks c) network of
                  None \<Rightarrow>
                    Inr (fst acc,
                         snd acc @
                           [(WarnLevel, ''Container `'' @ name @ ''` is not on network `'' @
                               network @ ''`, skipping'')])
                | Some ep \<Rightarrow>
                    Inr (fst acc @
                           [\<lparr>ContainerName = name, HostnameLabel = h,
                             IPAddress = ParseIP (EndpointIPAddress ep)\<rparr>],
                         snd acc))))"

text \<open>The loop body of \<open>discover\<close> for one container.\<close>

definition container_step ::
  "Service option \<Rightarrow> Container \<Rightarrow> Service list \<times> Log \<Rightarrow> error + (Service list \<times> Log)" where
  "container_step traefikIP c acc =
     (case find_hostname traefikIP c (fst acc) (snd acc) of
        Inl e \<Rightarrow> Inl e
      | Inr st \<Rightarrow>
          if routed st then Inr (discovered st, logged st)
          else if hostname st = [] then Inr (discovered st, logged st)
          else self_resolve c (hostname st) (discovered st, logged st))"

fun container_loop ::
  "Service option \<Rightarrow> Container list \<Rightarrow> Service list \<times> Log \<Rightarrow> error + (Service list \<times> Log)" where
  "container_loop traefikIP [] acc = Inr acc"
| "container_loop traefikIP (c # cs) acc =
     (case container_step traefikIP c acc of
        Inl e \<Rightarrow> Inl e
      | Inr acc' \<Rightarrow> container_loop traefikIP cs acc')"

definition discover :: "Docker \<Rightarrow> error + (Service list \<times> Log)" where
  "discover docker =
     (case docker of
        Inl err \<Rightarrow> Inl (FatalExit ''Failed to get Docker containers'')
      | Inr containers \<Rightarrow>
          (case discoverTraefik docker [(InfoLevel, ''Discovering services...'')] of
             Inl e \<Rightarrow> Inl e
           | Inr (traefikIP, lg) \<Rightarrow>
               (case container_loop traefikIP containers ([], lg) of
                  Inl e \<Rightarrow> Inl e
                | Inr (ds, lg') \<Rightarrow>
                    Inr (ds,
                         lg' @
                         [(InfoLevel, ''Discovered '' @ decimal (length ds) @ '' services:'')] @
                         map (\<lambda>service.
                                (InfoLevel, '' - '' @ ContainerName service @ '' ('' @
                                   HostnameLabel service @ '') -> '' @
                                   IP_String (IPAddress service)))
                             ds))))"

section \<open>The table and the answers of \<open>main\<close>\<close>

text \<open>The map \<open>main\<close> builds from the services: a later service overwrites an earlier one.\<close>

definition serviceMap :: "Service list \<Rightarrow> (string \<rightharpoonup> string)" where
  "serviceMap services =
     fold (\<lambda>service m. m(HostnameLabel service @ ''.'' \<mapsto> IP_String (IPAddress service)))
          services Map.empty"

text \<open>
  The messages of the DNS library, with the header fields \<open>SetReply\<close> and the program
  write. The program builds records of type A only.
\<close>

record Question =
  QName :: string
  Qtype :: nat
  Qclass :: nat

record RR_Header =
  Name :: string
  Rrtype :: nat
  Class :: nat
  Ttl :: nat

record RR_A =
  Hdr :: RR_Header
  AddrA :: IP

record Msg =
  Id :: nat
  Response :: bool
  Opcode :: int
  Authoritative :: bool
  RecursionDesired :: bool
  RecursionAvailable :: bool
  CheckingDisabled :: bool
  Rcode :: int
  Compress :: bool
  Questions :: "Question list"
  Answer :: "RR_A list"

definition TypeA :: nat where "TypeA = 1"
definition ClassINET :: nat where "ClassINET = 1"
definition OpcodeQuery :: int where "OpcodeQuery = 0"
definition RcodeSuccess :: int where "RcodeSuccess = 0"

text \<open>\<open>new(dns.Msg)\<close>: every field at its zero value.\<close>

definition new_Msg :: Msg where
  "new_Msg =
     \<lparr>Id = 0, Response = False, Opcode = 0, Authoritative = False, RecursionDesired = False,
      RecursionAvailable = False, CheckingDisabled = False, Rcode = 0, Compress = False,
      Questions = [], Answer = []\<rparr>"

text \<open>\<open>Msg.SetReply\<close> of the DNS library.\<close>

definition SetReply :: "Msg \<Rightarrow> Msg \<Rightarrow> Msg" where
  "SetReply m request =
     (let m1 = m\<lparr>Id := Id request, Response := True, Opcode := Opcode request\<rparr>;
          m2 = (if Opcode m1 = OpcodeQuery
                then m1\<lparr>RecursionDesired := RecursionDesired request,
                        CheckingDisabled := CheckingDisabled request\<rparr>
                else m1);
          m3 = m2\<lparr>Rcode := RcodeSuccess\<rparr>
      in if length (Questions request) > 0
         then m3\<lparr>Questions := [Questions request ! 0]\<rparr>
         else m3)"

definition makeResponse :: "string \<Rightarrow> IP \<Rightarrow> Msg" where
  "makeResponse h ip =
     (let records = [\<lparr>Hdr = \<lparr>Name = h, Rrtype = TypeA, Class = ClassINET, Ttl = 3600\<rparr>,
                       AddrA = ip\<rparr>];
          m = SetReply new_Msg new_Msg
      in m\<lparr>Authoritative := True, RecursionAvailable := True, Compress := False,
           Answer := records\<rparr>)"

text \<open>
  The handler \<open>main\<close> registers, for a request \<open>r\<close>: the message it hands to
  \<open>WriteMsg\<close>, if any, and what it logs. \<open>write_err\<close> is the error \<open>WriteMsg\<close> returns
  for the answer to a known name.
\<close>

definition handler :: "(string \<rightharpoonup> string) \<Rightarrow> string option \<Rightarrow> Msg \<Rightarrow> Msg option \<times> Log" where
  "handler table write_err r =
     (if length (Questions r) = 0
      then (None, [(WarnLevel, ''Received DNS query with no questions'')])
      else
        let name = QName (Questions r ! 0) in
        case table name of
          None \<Rightarrow>
            (Some (SetReply new_Msg r),
             [(WarnLevel, ''No service found for hostname: '' @ name)])
        | Some ip \<Rightarrow>
            let resp = SetReply (makeResponse name (ParseIP ip)) r;
                lg = [(DebugLevel, ''Creating DNS response for: '' @ name)]
            in (Some resp,
                lg @
                (case write_err of
                   Some err \<Rightarrow> [(ErrorLevel, ''Failed to write DNS response for '' @ name)]
                 | None \<Rightarrow> [(InfoLevel, ''DNS response sent for '' @ name @ '': '' @ ip)])))"

section \<open>Well-formed rule labels\<close>

text \<open>A router name: one or more word characters, dashes or underscores.\<close>

definition router_name :: "string \<Rightarrow> bool" where
  "router_name n \<longleftrightarrow> n \<noteq> [] \<and> list_all is_router_char n"

text \<open>
  A label of a domain name: letters, digits and dashes, the first a letter, the last a
  letter or a digit. A domain name is one or more labels joined by dots.
\<close>

definition dns_label :: "string \<Rightarrow> bool" where
  "dns_label l \<longleftrightarrow>
     l \<noteq> [] \<and> is_letter (hd l) \<and> is_letter_digit (last l) \<and> list_all is_letter_digit_dash l"

text \<open>A matcher that consumes only characters of a class.\<close>

definition eats :: "(char \<Rightarrow> bool) \<Rightarrow> matcher \<Rightarrow> bool" where
  "eats Q m \<longleftrightarrow> (\<forall>s d. d \<in> set (m s) \<longrightarrow> (\<exists>p. s = p @ d \<and> list_all Q p))"

text \<open>The characters of a domain name.\<close>

definition fqdn_char :: "char \<Rightarrow> bool" where
  "fqdn_char c \<longleftrightarrow> is_letter_digit_dash c \<or> c = CHR ''.''"

text \<open>
  The matches of the rule pattern among a container's labels, in the order in which the
  loop visits them.
\<close>

definition label_matches :: "(string \<times> string) list \<Rightarrow> string list list" where
  "label_matches ls =
     filter (\<lambda>m. length m = 3) (map (\<lambda>lv. FindStringSubmatch (fst lv @ ''='' @ snd lv)) ls)"

text \<open>
  A container \<open>discoverTraefik\<close> can take the proxy's address from: its image name is
  \<open>traefik\<close>, and it has a non-empty override label or an attachment with a non-empty
  address on its selected network.
\<close>

definition usable_proxy :: "Container \<Rightarrow> bool" where
  "usable_proxy c \<longleftrightarrow>
     imageName c = ''traefik'' \<and>
     (ip_override c \<noteq> None \<or>
      (case map_of (Networks c) (selected_network c) of
         None \<Rightarrow> False
       | Some ep \<Rightarrow> EndpointIPAddress ep \<noteq> []))"

text \<open>The text such a container's address is parsed from.\<close>

definition proxy_address_text :: "Container \<Rightarrow> string" where
  "proxy_address_text c =
     (case ip_override c of
        Some l \<Rightarrow> l
      | None \<Rightarrow>
          (case map_of (Networks c) (selected_network c) of
             None \<Rightarrow> []
           | Some ep \<Rightarrow> EndpointIPAddress ep))"

text \<open>A list of bytes.\<close>

definition bytes :: "nat list \<Rightarrow> bool" where
  "bytes xs \<longleftrightarrow> (\<forall>x \<in> set xs. x < 256)"



section \<open>Example inventories\<close>

text \<open>
  The containers of the scenarios: \<open>web1\<close> names itself \<open>app.local\<close> and is on the
  bridge network; \<open>proxy1\<close> runs the image \<open>traefik:v2\<close>; \<open>svc1\<close> has a Traefik rule
  for \<open>site.io\<close> and no name of its own.
\<close>

definition web1 :: Container where
  "web1 =
     \<lparr>Names = [''/web1''], Image = ''nginx:latest'',
      Labels = [(''com.autodns.hostname'', ''app.local'')],
      Networks = [(''bridge'', \<lparr>EndpointIPAddress = ''172.17.0.5''\<rparr>)]\<rparr>"

definition proxy1 :: Container where
  "proxy1 =
     \<lparr>Names = [''/proxy1''], Image = ''traefik:v2'',
      Labels = [],
      Networks = [(''bridge'', \<lparr>EndpointIPAddress = ''172.17.0.9''\<rparr>)]\<rparr>"

definition svc1 :: Container where
  "svc1 =
     \<lparr>Names = [''/svc1''], Image = ''whoami'',
      Labels = [(''traefik.http.routers.svc.rule'', ''Host(`site.io`)'')],
      Networks = [(''bridge'', \<lparr>EndpointIPAddress = ''172.17.0.3''\<rparr>)]\<rparr>"

text \<open>
  \<open>web2\<close> names itself and has a Traefik rule as well; \<open>svc2\<close> has an empty name label
  and a Traefik rule.
\<close>

definition web2 :: Container where
  "web2 =
     \<lparr>Names = [''/web2''], Image = ''nginx:latest'',
      Labels = [(''traefik.http.routers.web.rule'', ''Host(`shop.io`)''),
                (''com.autodns.hostname'', ''app.local'')],
      Networks = [(''bridge'', \<lparr>EndpointIPAddress = ''172.17.0.6''\<rparr>)]\<rparr>"

definition svc2 :: Container where
  "svc2 =
     \<lparr>Names = [''/svc2''], Image = ''whoami'',
      Labels = [(''com.autodns.hostname'', []),
                (''traefik.http.routers.svc.rule'', ''Host(`site.io`)'')],
      Networks = [(''bridge'', \<lparr>EndpointIPAddress = ''172.17.0.4''\<rparr>)]\<rparr>"

text \<open>
  \<open>web3\<close> selects a network it is not attached to; \<open>web4\<close> has an empty network
  label; \<open>web5\<close> has an override that is no address; \<open>web7\<close> names itself
  \<open>site.io\<close>.
\<close>

definition web3 :: Container where
  "web3 =
     \<lparr>Names = [''/web3''], Image = ''nginx:latest'',
      Labels = [(''com.autodns.hostname'', ''db.local''), (''com.autodns.network'', ''backend'')],
      Networks = [(''bridge'', \<lparr>EndpointIPAddress = ''172.17.0.7''\<rparr>)]\<rparr>"


definition web5 :: Container where
  "web5 =
     \<lparr>Names = [''/web5''], Image = ''nginx:latest'',
      Labels = [(''com.autodns.hostname'', ''app.local''), (''com.autodns.ip'', ''garbage'')],
      Networks = [(''bridge'', \<lparr>EndpointIPAddress = ''172.17.0.10''\<rparr>)]\<rparr>"

definition web7 :: Container where
  "web7 =
     \<lparr>Names = [''/web7''], Image = ''nginx:latest'',
      Labels = [(''com.autodns.hostname'', ''site.io'')],
      Networks = [(''bridge'', \<lparr>EndpointIPAddress = ''172.17.0.11''\<rparr>)]\<rparr>"

text \<open>
  \<open>proxy0\<close> runs the image \<open>traefik\<close> on the host network only, with no attachment to
  the bridge; \<open>svc3\<close> has two Traefik rules.
\<close>

definition proxy0 :: Container where
  "proxy0 =
     \<lparr>Names = [''/proxy0''], Image = ''traefik'',
      Labels = [],
      Networks = [(''host'', \<lparr>EndpointIPAddress = []\<rparr>)]\<rparr>"

definition svc3 :: Container where
  "svc3 =
     \<lparr>Names = [''/svc3''], Image = ''whoami'',
      Labels = [(''traefik.http.routers.a.rule'', ''Host(`a.io`)''),
                (''traefik.http.routers.b.rule'', ''Host(`b.io`)'')],
      Networks = [(''bridge'', \<lparr>EndpointIPAddress = ''172.17.0.12''\<rparr>)]\<rparr>"


definition proxy4 :: Container where
  "proxy4 =
     \<lparr>Names = [''/proxy4''], Image = ''traefik:v3'',
      Labels = [(''com.autodns.ip'', ''host-gateway'')],
      Networks = [(''bridge'', \<lparr>EndpointIPAddress = ''172.17.0.14''\<rparr>)]\<rparr>"


text \<open>The service \<open>discoverTraefik\<close> returns for \<open>proxy1\<close>.\<close>

definition proxy1_service :: Service where
  "proxy1_service =
     \<lparr>ContainerName = ''/proxy1'', HostnameLabel = ''traefik'',
      IPAddress = [0, 0, 0, 0, 0, 0, 0, 0, 0, 0, 255, 255, 172, 17, 0, 9]\<rparr>"

text \<open>A query for one name, with transaction id 4711 and recursion desired.\<close>

definition query :: "string \<Rightarrow> Msg" where
  "query name =
     new_Msg\<lparr>Id := 4711, RecursionDesired := True,
             Questions := [\<lparr>QName = name, Qtype = TypeA, Qclass = ClassINET\<rparr>]\<rparr>"

section \<open>Lemmas\<close>

subsection \<open>The rule pattern on well-formed labels\<close>

lemma lit_self: "lit p (p @ r) = [r]"
  by (induction p) auto

lemma star_self: "s \<in> set (star m s)"
  by (subst star.simps) simp

lemma star_step:
  "r1 \<in> set (m s) \<Longrightarrow> length r1 < length s \<Longrightarrow> r2 \<in> set (star m r1) \<Longrightarrow> r2 \<in> set (star m s)"
  by (subst star.simps) auto

lemma star_cls_reach: "list_all P p \<Longrightarrow> r \<in> set (star (cls P) (p @ r))"
proof (induction p)
  case Nil
  then show ?case by (simp add: star_self)
next
  case (Cons a p)
  have "p @ r \<in> set (cls P ((a # p) @ r))" using Cons.prems by (simp add: cls_def)
  moreover have "r \<in> set (star (cls P) (p @ r))" using Cons by simp
  ultimately show ?case using star_step[of "p @ r" "cls P" "(a # p) @ r" r] by simp
qed

lemma star_cls_stop: "\<not> P x \<Longrightarrow> star (cls P) (x # r) = [x # r]"
  by (subst star.simps) (simp add: cls_def)

lemma star_cls_stop_nil: "star (cls P) [] = [[]]"
  by (subst star.simps) (simp add: cls_def)

lemma star_cls_greedy:
  "list_all P n \<Longrightarrow> \<not> P x \<Longrightarrow> \<exists>rest. star (cls P) (n @ x # r) = (x # r) # rest"
proof (induction n)
  case Nil
  then show ?case by (simp add: star_cls_stop)
next
  case (Cons a n)
  then obtain rest where "star (cls P) (n @ x # r) = (x # r) # rest" by auto
  moreover have "star (cls P) ((a # n) @ x # r) = star (cls P) (n @ x # r) @ [(a # n) @ x # r]"
    using Cons.prems by (subst star.simps) (simp add: cls_def)
  ultimately show ?case by simp
qed

lemma rx_router_greedy:
  assumes "router_name n" "\<not> is_router_char x"
  shows "\<exists>rest. rx_router (n @ x # r) = (x # r) # rest"
proof -
  from assms obtain a n' where n: "n = a # n'" and a: "is_router_char a" and n': "list_all is_router_char n'"
    by (cases n) (auto simp: router_name_def)
  from star_cls_greedy[OF n' assms(2)] obtain rest where
    "star (cls is_router_char) (n' @ x # r) = (x # r) # rest" by blast
  then show ?thesis using a by (simp add: rx_router_def plus_def seq_def cls_def n)
qed

lemma rx_head_literal: "rx_head (''traefik.http.routers.'' @ r) = [r]"
  by (simp add: rx_head_def seq_def any_not_nl_def byte_of_def)

lemma rx_mid_literal: "rx_mid (''.rule=Host(`'' @ r) = [r]"
  by (simp add: rx_mid_def seq_def any_not_nl_def byte_of_def)

lemma eats_cls: "(\<And>c. P c \<Longrightarrow> Q c) \<Longrightarrow> eats Q (cls P)"
  by (auto simp: eats_def cls_def split: list.splits if_splits)

lemma eats_lit: "list_all Q w \<Longrightarrow> eats Q (lit w)"
proof (induction w)
  case Nil
  then show ?case by (simp add: eats_def)
next
  case (Cons a w)
  then have ih: "eats Q (lit w)" and a: "Q a" by simp_all
  show ?case unfolding eats_def
  proof (intro allI impI)
    fix s d assume d: "d \<in> set (lit (a # w) s)"
    then obtain s' where s: "s = a # s'" and "d \<in> set (lit w s')"
      by (cases s) (auto split: if_splits)
    with ih obtain p where "s' = p @ d" "list_all Q p" unfolding eats_def by blast
    then show "\<exists>p. s = p @ d \<and> list_all Q p" using s a by (intro exI[of _ "a # p"]) simp
  qed
qed

lemma eats_seq: "eats Q m \<Longrightarrow> eats Q n \<Longrightarrow> eats Q (seq m n)"
  unfolding eats_def seq_def
proof (intro allI impI)
  fix s d
  assume m: "\<forall>s d. d \<in> set (m s) \<longrightarrow> (\<exists>p. s = p @ d \<and> list_all Q p)"
    and n: "\<forall>s d. d \<in> set (n s) \<longrightarrow> (\<exists>p. s = p @ d \<and> list_all Q p)"
    and d: "d \<in> set (concat (map n (m s)))"
  from d obtain r where r: "r \<in> set (m s)" and dr: "d \<in> set (n r)" by auto
  from m r obtain p where p: "s = p @ r" "list_all Q p" by blast
  from n dr obtain q where q: "r = q @ d" "list_all Q q" by blast
  show "\<exists>p. s = p @ d \<and> list_all Q p" using p q by (intro exI[of _ "p @ q"]) simp
qed

lemma eats_alt: "eats Q m \<Longrightarrow> eats Q n \<Longrightarrow> eats Q (alt m n)"
  unfolding eats_def alt_def by auto

lemma eats_star_aux:
  "eats Q m \<Longrightarrow> d \<in> set (star m s) \<Longrightarrow> \<exists>p. s = p @ d \<and> list_all Q p"
proof (induction m s arbitrary: d rule: star.induct)
  case (1 m s)
  from "1.prems"(2)
  have "d = s \<or> (\<exists>r. r \<in> set (m s) \<and> length r < length s \<and> d \<in> set (star m r))"
    by (subst (asm) star.simps) auto
  then show ?case
  proof
    assume "d = s" then show ?thesis by (intro exI[of _ "[]"]) simp
  next
    assume "\<exists>r. r \<in> set (m s) \<and> length r < length s \<and> d \<in> set (star m r)"
    then obtain r where r: "r \<in> set (m s)" "length r < length s" "d \<in> set (star m r)" by blast
    from "1.IH"[of r d] r "1.prems"(1) obtain q where q: "r = q @ d" "list_all Q q" by auto
    from "1.prems"(1) r(1) obtain p where p: "s = p @ r" "list_all Q p" unfolding eats_def by blast
    show ?thesis using p q by (intro exI[of _ "p @ q"]) simp
  qed
qed

lemma eats_star: "eats Q m \<Longrightarrow> eats Q (star m)"
  unfolding eats_def[of Q "star m"] using eats_star_aux by blast

lemma eats_rx_label: "eats fqdn_char rx_label"
  unfolding rx_label_def
  by (intro eats_alt eats_seq eats_star eats_cls)
     (auto simp: fqdn_char_def is_letter_digit_dash_def is_letter_def is_letter_digit_def)

lemma eats_rx_fqdn: "eats fqdn_char rx_fqdn"
  unfolding rx_fqdn_def
  by (intro eats_seq eats_star eats_rx_label eats_lit) (simp add: fqdn_char_def)

lemma fqdn_char_not_backtick: "fqdn_char c \<Longrightarrow> c \<noteq> CHR 0x60"
  by (auto simp: fqdn_char_def is_letter_digit_dash_def is_lower_def is_upper_def is_digit_def)

lemma router_char_not_dot: "\<not> is_router_char CHR ''.''"
  by (simp add: is_router_char_def is_word_def is_lower_def is_upper_def is_digit_def)

lemma seq_mem: "r \<in> set (m s) \<Longrightarrow> d \<in> set (n r) \<Longrightarrow> d \<in> set (seq m n s)"
  by (auto simp: seq_def)

lemma rx_label_reach:
  assumes "dns_label l"
  shows "r \<in> set (rx_label (l @ r))"
proof (cases l)
  case Nil
  with assms show ?thesis by (simp add: dns_label_def)
next
  case (Cons a l')
  with assms have a: "is_letter a" by (simp add: dns_label_def)
  show ?thesis
  proof (cases l' rule: rev_cases)
    case Nil
    then show ?thesis using a Cons by (simp add: rx_label_def alt_def cls_def)
  next
    case (snoc mid z)
    with assms Cons have z: "is_letter_digit z" and mid: "list_all is_letter_digit_dash mid"
      by (simp_all add: dns_label_def)
    have 1: "mid @ z # r \<in> set (cls is_letter (l @ r))"
      using a Cons snoc by (simp add: cls_def)
    have 2: "z # r \<in> set (star (cls is_letter_digit_dash) (mid @ z # r))"
      by (rule star_cls_reach[OF mid])
    have 3: "r \<in> set (cls is_letter_digit (z # r))" using z by (simp add: cls_def)
    have "r \<in> set (seq (cls is_letter) (seq (star (cls is_letter_digit_dash)) (cls is_letter_digit)) (l @ r))"
    proof (rule seq_mem[where m = "cls is_letter" and r = "mid @ z # r"])
      show "mid @ z # r \<in> set (cls is_letter (l @ r))" by (rule 1)
      show "r \<in> set (seq (star (cls is_letter_digit_dash)) (cls is_letter_digit) (mid @ z # r))"
        by (rule seq_mem[where m = "star (cls is_letter_digit_dash)" and r = "z # r"]) (rule 2, rule 3)
    qed
    then show ?thesis by (simp add: rx_label_def alt_def)
  qed
qed

lemma rx_fqdn_reach_aux:
  "labels \<noteq> [] \<Longrightarrow> list_all dns_label labels \<Longrightarrow>
   \<exists>mid. mid \<in> set (star (seq rx_label (lit ''.'')) (join ''.'' labels @ r)) \<and> r \<in> set (rx_label mid)"
proof (induction labels rule: induct_list012)
  case 1
  then show ?case by simp
next
  case (2 x)
  then have "r \<in> set (rx_label (x @ r))" by (simp add: rx_label_reach)
  then show ?case using star_self[of "x @ r"] by auto
next
  case (3 x y ys)
  let ?M = "seq rx_label (lit ''.'')"
  let ?J = "join ''.'' (y # ys) @ r"
  from "3.prems" have x: "dns_label x" by simp
  from 3 have "\<exists>mid. mid \<in> set (star ?M ?J) \<and> r \<in> set (rx_label mid)" by simp
  then obtain mid where mid: "mid \<in> set (star ?M ?J)" "r \<in> set (rx_label mid)" by blast
  have "CHR ''.'' # ?J \<in> set (rx_label (x @ CHR ''.'' # ?J))" by (rule rx_label_reach[OF x])
  moreover have "?J \<in> set (lit ''.'' (CHR ''.'' # ?J))" by simp
  ultimately have step: "?J \<in> set (?M (x @ CHR ''.'' # ?J))"
    by (rule seq_mem[where m = rx_label and r = "CHR ''.'' # ?J"])
  have "mid \<in> set (star ?M (x @ CHR ''.'' # ?J))"
    by (rule star_step[OF step _ mid(1)]) simp
  then show ?case using mid(2) by auto
qed

lemma rx_fqdn_reach:
  "labels \<noteq> [] \<Longrightarrow> list_all dns_label labels \<Longrightarrow> r \<in> set (rx_fqdn (join ''.'' labels @ r))"
  using rx_fqdn_reach_aux[of labels r] by (auto simp: rx_fqdn_def intro: seq_mem)

lemma dns_label_chars: "dns_label l \<Longrightarrow> list_all fqdn_char l"
  by (simp add: dns_label_def fqdn_char_def list_all_iff)

lemma join_dns_labels_chars: "list_all dns_label labels \<Longrightarrow> list_all fqdn_char (join ''.'' labels)"
  by (induction labels rule: induct_list012) (auto simp: dns_label_chars fqdn_char_def)

lemma lit_result: "e \<in> set (lit w d) \<Longrightarrow> d = w @ e"
proof (induction w arbitrary: d)
  case Nil
  then show ?case by simp
next
  case (Cons a w)
  then show ?case by (cases d) (auto split: if_splits)
qed

lemma hd_of_constant_list:
  assumes "xs \<noteq> []" "\<forall>x \<in> set xs. x = v"
  shows "\<exists>rest. xs @ ys = v # rest"
  using assms by (cases xs) auto

lemma TraefikLabelRegex_rule_label:
  assumes n: "router_name n" and ne: "labels \<noteq> []" and ls: "list_all dns_label labels"
  defines "f \<equiv> join ''.'' labels"
  defines "s \<equiv> ''traefik.http.routers.'' @ n @ ''.rule=Host(`'' @ f @ ''`)''"
  shows "\<exists>rest. TraefikLabelRegex s = [s, n, f] # rest"
proof -
  let ?c0 = "f @ ''`)''"
  let ?r1 = "''rule=Host(`'' @ ?c0"
  let ?b0 = "CHR ''.'' # ?r1"
  let ?a0 = "n @ ?b0"
  let ?FD = "\<lambda>b c d. map (\<lambda>e. [consumed s e, consumed ?a0 b, consumed c d]) (rx_tail d)"
  let ?FC = "\<lambda>b c. concat (map (?FD b c) (rx_fqdn c))"
  let ?FB = "\<lambda>b. concat (map (?FC b) (rx_mid b))"
  have s: "s = ''traefik.http.routers.'' @ ?a0" by (simp add: s_def)
  have head: "rx_head s = [?a0]" unfolding s by (rule rx_head_literal)
  obtain rest where router: "rx_router ?a0 = ?b0 # rest"
    using rx_router_greedy[OF n router_char_not_dot, of ?r1] by blast
  have mid: "rx_mid ?b0 = [?c0]" using rx_mid_literal[of ?c0] by simp
  have fchars: "list_all fqdn_char f" unfolding f_def by (rule join_dns_labels_chars[OF ls])
  have nobt_f: "CHR 0x60 \<notin> set f"
    using fchars fqdn_char_not_backtick by (auto simp: list_all_iff)
  have all: "\<forall>m \<in> set (?FB ?b0). m = [s, n, f]"
  proof
    fix m assume "m \<in> set (?FB ?b0)"
    then obtain d e where d: "d \<in> set (rx_fqdn ?c0)" and e: "e \<in> set (rx_tail d)"
      and m: "m = [consumed s e, consumed ?a0 ?b0, consumed ?c0 d]"
      unfolding mid by auto
    from eats_rx_fqdn d obtain p where p: "?c0 = p @ d" "list_all fqdn_char p"
      unfolding eats_def by blast
    have nobt_p: "CHR 0x60 \<notin> set p"
      using p(2) fqdn_char_not_backtick by (auto simp: list_all_iff)
    from e have "d = ''`)'' @ e" unfolding rx_tail_def by (rule lit_result)
    with p(1) have "f @ CHR 0x60 # [CHR '')''] = p @ CHR 0x60 # (CHR '')'' # e)" by simp
    with nobt_f nobt_p have "f = p \<and> [CHR '')''] = CHR '')'' # e"
      by (simp add: append_Cons_eq_iff)
    then have "e = []" "d = ''`)''" using \<open>d = ''`)'' @ e\<close> by simp_all
    then show "m = [s, n, f]" using m by (simp add: consumed_def)
  qed
  have "''`)'' \<in> set (rx_fqdn ?c0)" unfolding f_def by (rule rx_fqdn_reach[OF ne ls])
  moreover have "rx_tail ''`)'' = [[]]" by (simp add: rx_tail_def)
  ultimately have nonempty: "?FB ?b0 \<noteq> []" unfolding mid by fastforce
  have "TraefikLabelRegex s = ?FB ?b0 @ concat (map ?FB rest)"
    unfolding TraefikLabelRegex_def head using router by simp
  then show ?thesis using hd_of_constant_list[OF nonempty all] by simp
qed

lemma FindStringSubmatch_rule_label:
  assumes "router_name n" "labels \<noteq> []" "list_all dns_label labels"
  shows "FindStringSubmatch ((''traefik.http.routers.'' @ n @ ''.rule'') @ ''='' @
           (''Host(`'' @ join ''.'' labels @ ''`)'')) =
         [''traefik.http.routers.'' @ n @ ''.rule=Host(`'' @ join ''.'' labels @ ''`)'',
          n, join ''.'' labels]"
proof -
  let ?s = "''traefik.http.routers.'' @ n @ ''.rule=Host(`'' @ join ''.'' labels @ ''`)''"
  from TraefikLabelRegex_rule_label[OF assms] obtain rest where
    r: "TraefikLabelRegex ?s = [?s, n, join ''.'' labels] # rest" by blast
  obtain c t where ct: "?s = c # t" by simp
  have "FindStringSubmatch (c # t) = [c # t, n, join ''.'' labels]"
    using r unfolding ct by simp
  then have "FindStringSubmatch ?s = [?s, n, join ''.'' labels]"
    unfolding ct .
  then show ?thesis by simp
qed

subsection \<open>The loop over the labels of a container\<close>

lemma label_matches_Nil [simp]: "label_matches [] = []"
  by (simp add: label_matches_def)

lemma label_matches_Cons:
  "label_matches (lv # ls) =
     (if length (FindStringSubmatch (fst lv @ ''='' @ snd lv)) = 3
      then FindStringSubmatch (fst lv @ ''='' @ snd lv) # label_matches ls
      else label_matches ls)"
  by (simp add: label_matches_def)

lemma label_matches_length: "m \<in> set (label_matches ls) \<Longrightarrow> length m = 3"
  by (auto simp: label_matches_def)

lemma label_matches_mem:
  "(k, v) \<in> set ls \<Longrightarrow> FindStringSubmatch (k @ ''='' @ v) = [w, n, f] \<Longrightarrow>
   [w, n, f] \<in> set (label_matches ls)"
  by (force simp: label_matches_def)

lemma label_step_no_match:
  "length (FindStringSubmatch (fst lv @ ''='' @ snd lv)) \<noteq> 3 \<Longrightarrow> label_step t c lv st = Inr st"
  by (simp add: label_step_def)

lemma label_step_panic:
  "length (FindStringSubmatch (fst lv @ ''='' @ snd lv)) = 3 \<Longrightarrow> Names c = [] \<Longrightarrow>
   label_step t c lv st = Inl IndexOutOfRange"
  by (simp add: label_step_def)

lemma label_step_Some:
  assumes "length (FindStringSubmatch (fst lv @ ''='' @ snd lv)) = 3" "Names c = name # rest"
  shows "\<exists>st'. label_step (Some p) c lv st = Inr st' \<and>
           hostname st' = FindStringSubmatch (fst lv @ ''='' @ snd lv) ! 2 \<and> routed st' \<and>
           discovered st' = discovered st @
             [\<lparr>ContainerName = name,
               HostnameLabel = FindStringSubmatch (fst lv @ ''='' @ snd lv) ! 2,
               IPAddress = IPAddress p\<rparr>]"
  using assms by (simp add: label_step_def Let_def)

lemma label_step_None:
  assumes "length (FindStringSubmatch (fst lv @ ''='' @ snd lv)) = 3" "Names c = name # rest"
  shows "\<exists>st'. label_step None c lv st = Inr st' \<and>
           hostname st' = FindStringSubmatch (fst lv @ ''='' @ snd lv) ! 2 \<and>
           routed st' = routed st \<and> discovered st' = discovered st"
  using assms by (simp add: label_step_def Let_def)

lemma label_loop_no_matches: "label_matches ls = [] \<Longrightarrow> label_loop t c ls st = Inr st"
  by (induction ls arbitrary: st)
     (auto simp: label_matches_Cons label_step_no_match split: if_splits)

lemma label_loop_panic:
  "Names c = [] \<Longrightarrow> label_matches ls \<noteq> [] \<Longrightarrow> label_loop t c ls st = Inl IndexOutOfRange"
  by (induction ls arbitrary: st)
     (auto simp: label_matches_Cons label_step_no_match label_step_panic split: if_splits)

lemma label_loop_Some:
  assumes "Names c = name # rest"
  shows "\<exists>st'. label_loop (Some p) c ls st = Inr st' \<and>
           discovered st' = discovered st @
             map (\<lambda>m. \<lparr>ContainerName = name, HostnameLabel = m ! 2, IPAddress = IPAddress p\<rparr>)
                 (label_matches ls) \<and>
           routed st' = (routed st \<or> label_matches ls \<noteq> []) \<and>
           hostname st' = (if label_matches ls = [] then hostname st
                           else last (label_matches ls) ! 2)"
proof (induction ls arbitrary: st)
  case Nil
  then show ?case by simp
next
  case (Cons lv ls)
  show ?case
  proof (cases "length (FindStringSubmatch (fst lv @ ''='' @ snd lv)) = 3")
    case True
    from label_step_Some[OF True assms, of p st] obtain st1 where
      st1: "label_step (Some p) c lv st = Inr st1"
        "hostname st1 = FindStringSubmatch (fst lv @ ''='' @ snd lv) ! 2" "routed st1"
        "discovered st1 = discovered st @
           [\<lparr>ContainerName = name,
             HostnameLabel = FindStringSubmatch (fst lv @ ''='' @ snd lv) ! 2,
             IPAddress = IPAddress p\<rparr>]"
      by blast
    from Cons[of st1] obtain st' where
      "label_loop (Some p) c ls st1 = Inr st'"
      "discovered st' = discovered st1 @
         map (\<lambda>m. \<lparr>ContainerName = name, HostnameLabel = m ! 2, IPAddress = IPAddress p\<rparr>)
             (label_matches ls)"
      "routed st' = (routed st1 \<or> label_matches ls \<noteq> [])"
      "hostname st' = (if label_matches ls = [] then hostname st1
                        else last (label_matches ls) ! 2)"
      by blast
    then show ?thesis using st1 True by (simp add: label_matches_Cons)
  next
    case False
    then show ?thesis using Cons[of st] by (auto simp: label_matches_Cons label_step_no_match)
  qed
qed

lemma label_loop_None:
  assumes "Names c = name # rest"
  shows "\<exists>st'. label_loop None c ls st = Inr st' \<and> discovered st' = discovered st \<and>
           routed st' = routed st \<and>
           hostname st' = (if label_matches ls = [] then hostname st
                           else last (label_matches ls) ! 2)"
proof (induction ls arbitrary: st)
  case Nil
  then show ?case by simp
next
  case (Cons lv ls)
  show ?case
  proof (cases "length (FindStringSubmatch (fst lv @ ''='' @ snd lv)) = 3")
    case True
    from label_step_None[OF True assms, of st] obtain st1 where
      st1: "label_step None c lv st = Inr st1"
        "hostname st1 = FindStringSubmatch (fst lv @ ''='' @ snd lv) ! 2"
        "routed st1 = routed st" "discovered st1 = discovered st"
      by blast
    from Cons[of st1] obtain st' where
      "label_loop None c ls st1 = Inr st'" "discovered st' = discovered st1"
      "routed st' = routed st1"
      "hostname st' = (if label_matches ls = [] then hostname st1
                        else last (label_matches ls) ! 2)"
      by blast
    then show ?thesis using st1 True by (simp add: label_matches_Cons)
  next
    case False
    then show ?thesis using Cons[of st] by (auto simp: label_matches_Cons label_step_no_match)
  qed
qed

text \<open>A loop that returns has met no match, or the container has a name.\<close>

lemma label_loop_returns:
  "label_loop t c ls st = Inr st' \<Longrightarrow> label_matches ls = [] \<or> Names c \<noteq> []"
  using label_loop_panic[of c ls t st] by (cases "Names c") auto

subsection \<open>The loop over the containers\<close>

lemma find_hostname_explicit:
  "map_of (Labels c) ''com.autodns.hostname'' = Some h \<Longrightarrow> h \<noteq> [] \<Longrightarrow>
   find_hostname t c ds lg = Inr \<lparr>hostname = h, routed = False, discovered = ds, logged = lg\<rparr>"
  by (simp add: find_hostname_def)

lemma find_hostname_scan:
  "map_of (Labels c) ''com.autodns.hostname'' = None \<or>
   map_of (Labels c) ''com.autodns.hostname'' = Some [] \<Longrightarrow>
   find_hostname t c ds lg =
     label_loop t c (Labels c) \<lparr>hostname = [], routed = False, discovered = ds, logged = lg\<rparr>"
  by (auto simp: find_hostname_def)

lemma self_resolve_cases:
  assumes "self_resolve c h (ds, lg) = Inr (ds', lg')"
  shows "\<exists>name rest. Names c = name # rest \<and>
           (case ip_override c of
              Some l \<Rightarrow> ds' = ds @ [\<lparr>ContainerName = name, HostnameLabel = h, IPAddress = ParseIP l\<rparr>]
            | None \<Rightarrow>
                (case map_of (Networks c) (selected_network c) of
                   None \<Rightarrow> ds' = ds
                 | Some ep \<Rightarrow>
                     ds' = ds @ [\<lparr>ContainerName = name, HostnameLabel = h,
                                  IPAddress = ParseIP (EndpointIPAddress ep)\<rparr>]))"
  using assms
  by (auto simp: self_resolve_def Let_def split: list.splits option.splits)

lemma self_resolve_one:
  assumes "self_resolve c h (ds, lg) = Inr (ds', lg')"
  shows "ds' = ds \<or>
         (\<exists>name x. ds' = ds @ [\<lparr>ContainerName = name, HostnameLabel = h, IPAddress = ParseIP x\<rparr>])"
  using self_resolve_cases[OF assms] by (auto split: option.splits)

lemma container_step_explicit:
  "map_of (Labels c) ''com.autodns.hostname'' = Some h \<Longrightarrow> h \<noteq> [] \<Longrightarrow>
   container_step t c (ds, lg) = self_resolve c h (ds, lg)"
  by (simp add: container_step_def find_hostname_explicit)

lemma container_step_no_match:
  assumes "map_of (Labels c) ''com.autodns.hostname'' = None \<or>
           map_of (Labels c) ''com.autodns.hostname'' = Some []"
    and "label_matches (Labels c) = []"
  shows "container_step t c (ds, lg) = Inr (ds, lg)"
  by (simp add: container_step_def find_hostname_scan[OF assms(1)] label_loop_no_matches[OF assms(2)])

lemma container_step_panic:
  assumes "map_of (Labels c) ''com.autodns.hostname'' = None \<or>
           map_of (Labels c) ''com.autodns.hostname'' = Some []"
    and "label_matches (Labels c) \<noteq> []" and "Names c = []"
  shows "container_step t c (ds, lg) = Inl IndexOutOfRange"
  by (simp add: container_step_def find_hostname_scan[OF assms(1)]
        label_loop_panic[OF assms(3) assms(2)])

lemma container_step_routed:
  assumes "map_of (Labels c) ''com.autodns.hostname'' = None \<or>
           map_of (Labels c) ''com.autodns.hostname'' = Some []"
    and "label_matches (Labels c) \<noteq> []" and "Names c = name # rest"
  shows "\<exists>lg'. container_step (Some p) c (ds, lg) =
           Inr (ds @ map (\<lambda>m. \<lparr>ContainerName = name, HostnameLabel = m ! 2,
                                 IPAddress = IPAddress p\<rparr>)
                        (label_matches (Labels c)), lg')"
proof -
  from label_loop_Some[OF assms(3), of p "Labels c"
      "\<lparr>hostname = [], routed = False, discovered = ds, logged = lg\<rparr>"]
  obtain st' where
    "label_loop (Some p) c (Labels c) \<lparr>hostname = [], routed = False, discovered = ds, logged = lg\<rparr>
       = Inr st'"
    "discovered st' = ds @ map (\<lambda>m. \<lparr>ContainerName = name, HostnameLabel = m ! 2,
                                       IPAddress = IPAddress p\<rparr>) (label_matches (Labels c))"
    "routed st'"
    using assms(2) by auto
  then show ?thesis
    by (simp add: container_step_def find_hostname_scan[OF assms(1)])
qed

lemma container_step_unrouted:
  assumes "map_of (Labels c) ''com.autodns.hostname'' = None \<or>
           map_of (Labels c) ''com.autodns.hostname'' = Some []"
    and "label_matches (Labels c) \<noteq> []" and "Names c = name # rest"
  shows "\<exists>lg1. container_step None c (ds, lg) =
           (if last (label_matches (Labels c)) ! 2 = [] then Inr (ds, lg1)
            else self_resolve c (last (label_matches (Labels c)) ! 2) (ds, lg1))"
proof -
  from label_loop_None[OF assms(3), of "Labels c"
      "\<lparr>hostname = [], routed = False, discovered = ds, logged = lg\<rparr>"]
  obtain st' where
    "label_loop None c (Labels c) \<lparr>hostname = [], routed = False, discovered = ds, logged = lg\<rparr>
       = Inr st'"
    "discovered st' = ds" "\<not> routed st'" "hostname st' = last (label_matches (Labels c)) ! 2"
    using assms(2) by auto
  then show ?thesis
    by (auto simp: container_step_def find_hostname_scan[OF assms(1)])
qed

text \<open>
  What one container adds to the services: nothing, one self-resolved service, or one
  service per match, each at the proxy's address.
\<close>

lemma container_step_adds:
  assumes "container_step t c (ds, lg) = Inr (ds', lg')"
  shows "\<exists>new. ds' = ds @ new \<and>
           (\<forall>s \<in> set new. (\<exists>x. IPAddress s = ParseIP x) \<or> (\<exists>p. t = Some p \<and> IPAddress s = IPAddress p))"
proof (cases "map_of (Labels c) ''com.autodns.hostname'' = None \<or>
              map_of (Labels c) ''com.autodns.hostname'' = Some []")
  case False
  then obtain h where h: "map_of (Labels c) ''com.autodns.hostname'' = Some h" "h \<noteq> []" by auto
  from assms have "self_resolve c h (ds, lg) = Inr (ds', lg')"
    by (simp add: container_step_explicit[OF h])
  from self_resolve_one[OF this] show ?thesis by auto
next
  case scan: True
  show ?thesis
  proof (cases "label_matches (Labels c) = []")
    case True
    with assms scan show ?thesis by (simp add: container_step_no_match)
  next
    case False
    with assms scan obtain name rest where names: "Names c = name # rest"
      by (cases "Names c") (auto simp: container_step_panic)
    show ?thesis
    proof (cases t)
      case None
      from container_step_unrouted[OF scan False names, of ds lg] obtain lg1 where
        "container_step None c (ds, lg) =
           (if last (label_matches (Labels c)) ! 2 = [] then Inr (ds, lg1)
            else self_resolve c (last (label_matches (Labels c)) ! 2) (ds, lg1))" by blast
      with assms None have "ds' = ds \<or>
          self_resolve c (last (label_matches (Labels c)) ! 2) (ds, lg1) = Inr (ds', lg')"
        by (auto split: if_splits)
      then show ?thesis using self_resolve_one by fastforce
    next
      case (Some p)
      from container_step_routed[OF scan False names, of p ds lg] assms Some
      show ?thesis by auto
    qed
  qed
qed

lemma container_loop_append:
  "container_loop t (cs1 @ cs2) acc =
     (case container_loop t cs1 acc of Inl e \<Rightarrow> Inl e | Inr acc1 \<Rightarrow> container_loop t cs2 acc1)"
  by (induction cs1 arbitrary: acc) (auto split: sum.splits)

lemma container_loop_extends:
  "container_loop t cs (ds, lg) = Inr (ds', lg') \<Longrightarrow> \<exists>new. ds' = ds @ new"
proof (induction cs arbitrary: ds lg)
  case Nil
  then show ?case by simp
next
  case (Cons c cs)
  then obtain ds1 lg1 where 1: "container_step t c (ds, lg) = Inr (ds1, lg1)"
    and 2: "container_loop t cs (ds1, lg1) = Inr (ds', lg')"
    by (auto split: sum.splits)
  from container_step_adds[OF 1] Cons.IH[OF 2] show ?case by auto
qed

text \<open>Every container of a finished run had its round, and what it added stays.\<close>

lemma container_loop_mem:
  assumes "container_loop t cs (ds, lg) = Inr (ds', lg')" and "c \<in> set cs"
  shows "\<exists>ds0 lg0 ds1 lg1 new. container_step t c (ds0, lg0) = Inr (ds1, lg1) \<and>
           ds' = ds1 @ new"
proof -
  from assms(2) obtain cs1 cs2 where cs: "cs = cs1 @ c # cs2" by (auto simp: in_set_conv_decomp)
  from assms(1) obtain acc1 where 1: "container_loop t cs1 (ds, lg) = Inr acc1"
    and 2: "container_loop t (c # cs2) acc1 = Inr (ds', lg')"
    unfolding cs container_loop_append by (auto split: sum.splits)
  from 2 obtain acc2 where 3: "container_step t c acc1 = Inr acc2"
    and 4: "container_loop t cs2 acc2 = Inr (ds', lg')"
    by (auto split: sum.splits)
  from container_loop_extends[of t cs2 "fst acc2" "snd acc2" ds' lg'] 4
  obtain new where "ds' = fst acc2 @ new" by auto
  with 3 show ?thesis by (metis prod.collapse)
qed

lemma container_loop_addresses:
  assumes "container_loop t cs (ds, lg) = Inr (ds', lg')"
  shows "\<exists>new. ds' = ds @ new \<and>
           (\<forall>s \<in> set new. (\<exists>x. IPAddress s = ParseIP x) \<or> (\<exists>p. t = Some p \<and> IPAddress s = IPAddress p))"
  using assms
proof (induction cs arbitrary: ds lg)
  case Nil
  then show ?case by simp
next
  case (Cons c cs)
  then obtain ds1 lg1 where 1: "container_step t c (ds, lg) = Inr (ds1, lg1)"
    and 2: "container_loop t cs (ds1, lg1) = Inr (ds', lg')"
    by (auto split: sum.splits)
  from container_step_adds[OF 1] obtain n1 where
    n1: "ds1 = ds @ n1"
      "\<forall>s \<in> set n1. (\<exists>x. IPAddress s = ParseIP x) \<or> (\<exists>p. t = Some p \<and> IPAddress s = IPAddress p)"
    by blast
  from Cons.IH[OF 2] obtain n2 where
    n2: "ds' = ds1 @ n2"
      "\<forall>s \<in> set n2. (\<exists>x. IPAddress s = ParseIP x) \<or> (\<exists>p. t = Some p \<and> IPAddress s = IPAddress p)"
    by blast
  show ?case using n1 n2 by (intro exI[of _ "n1 @ n2"]) auto
qed

lemma discover_Inr:
  assumes "discover (Inr containers) = Inr (services, lg)"
  shows "\<exists>t lg1 lg2. discoverTraefik (Inr containers) [(InfoLevel, ''Discovering services...'')] = Inr (t, lg1) \<and>
           container_loop t containers ([], lg1) = Inr (services, lg2)"
  using assms by (auto simp: discover_def split: sum.splits prod.splits)

subsection \<open>The table\<close>

lemma serviceMap_snoc:
  "serviceMap (xs @ [s]) = (serviceMap xs)(HostnameLabel s @ ''.'' \<mapsto> IP_String (IPAddress s))"
  by (simp add: serviceMap_def)

lemma serviceMap_lookup:
  "serviceMap services (h @ ''.'') =
     (case filter (\<lambda>s. HostnameLabel s = h) services of
        [] \<Rightarrow> None
      | x # xs \<Rightarrow> Some (IP_String (IPAddress (last (x # xs)))))"
proof (induction services rule: rev_induct)
  case Nil
  then show ?case by (simp add: serviceMap_def)
next
  case (snoc s services)
  then show ?case by (auto simp: serviceMap_snoc split: list.splits)
qed


subsection \<open>An empty host name label\<close>

lemma label_step_Names: "Names c = Names c' \<Longrightarrow> label_step t c lv st = label_step t c' lv st"
  by (simp add: label_step_def Let_def split: list.splits)

lemma label_loop_Names: "Names c = Names c' \<Longrightarrow> label_loop t c ls st = label_loop t c' ls st"
  by (induction ls arbitrary: st) (auto simp: label_step_Names[of c c'] split: sum.splits)

lemma label_loop_filter:
  "\<forall>lv \<in> set ls. \<not> P lv \<longrightarrow> length (FindStringSubmatch (fst lv @ ''='' @ snd lv)) \<noteq> 3 \<Longrightarrow>
   label_loop t c (filter P ls) st = label_loop t c ls st"
  by (induction ls arbitrary: st) (auto simp: label_step_no_match split: sum.splits)

lemma map_of_filter_other:
  "k' \<noteq> k \<Longrightarrow> map_of (filter (\<lambda>lv. fst lv \<noteq> k) xs) k' = map_of xs k'"
  by (induction xs) auto

lemma map_of_filter_same: "map_of (filter (\<lambda>lv. fst lv \<noteq> k) xs) k = None"
  by (induction xs) auto

lemma empty_hostname_label_no_match: "FindStringSubmatch (''com.autodns.hostname'' @ ''='' @ []) = []"
  by code_simp

lemma self_resolve_cong:
  "Names c = Names c' \<Longrightarrow> ip_override c = ip_override c' \<Longrightarrow>
   selected_network c = selected_network c' \<Longrightarrow> Networks c = Networks c' \<Longrightarrow>
   self_resolve c h acc = self_resolve c' h acc"
  by (simp add: self_resolve_def split: list.splits option.splits)

lemma container_step_empty_hostname:
  assumes wf: "wf_container c" and e: "map_of (Labels c) ''com.autodns.hostname'' = Some []"
  defines "c' \<equiv> c\<lparr>Labels := filter (\<lambda>lv. fst lv \<noteq> ''com.autodns.hostname'') (Labels c)\<rparr>"
  shows "container_step t c acc = container_step t c' acc"
proof -
  have names: "Names c = Names c'" and nets: "Networks c = Networks c'" by (simp_all add: c'_def)
  have ov: "ip_override c = ip_override c'"
    by (simp add: ip_override_def c'_def map_of_filter_other)
  have sel: "selected_network c = selected_network c'"
    by (simp add: selected_network_def c'_def map_of_filter_other)
  have none: "map_of (Labels c') ''com.autodns.hostname'' = None"
    by (simp add: c'_def map_of_filter_same)
  have nomatch: "\<forall>lv \<in> set (Labels c). \<not> fst lv \<noteq> ''com.autodns.hostname'' \<longrightarrow>
      length (FindStringSubmatch (fst lv @ ''='' @ snd lv)) \<noteq> 3"
  proof (intro ballI impI)
    fix lv assume lv: "lv \<in> set (Labels c)" and "\<not> fst lv \<noteq> ''com.autodns.hostname''"
    then have k: "fst lv = ''com.autodns.hostname''" by simp
    from wf have "distinct (map fst (Labels c))" by (simp add: wf_container_def)
    with lv have "map_of (Labels c) (fst lv) = Some (snd lv)"
      by (intro map_of_is_SomeI) simp_all
    with e k have "snd lv = []" by simp
    with k show "length (FindStringSubmatch (fst lv @ ''='' @ snd lv)) \<noteq> 3"
      using empty_hostname_label_no_match by simp
  qed
  have "find_hostname t c (fst acc) (snd acc) = find_hostname t c' (fst acc) (snd acc)"
  proof -
    have "find_hostname t c' (fst acc) (snd acc) =
        label_loop t c' (Labels c')
          \<lparr>hostname = [], routed = False, discovered = fst acc, logged = snd acc\<rparr>"
      using none by (simp add: find_hostname_scan)
    also have "\<dots> = label_loop t c (Labels c')
          \<lparr>hostname = [], routed = False, discovered = fst acc, logged = snd acc\<rparr>"
      by (rule label_loop_Names[OF names[symmetric]])
    also have "\<dots> = label_loop t c (Labels c)
          \<lparr>hostname = [], routed = False, discovered = fst acc, logged = snd acc\<rparr>"
      unfolding c'_def using label_loop_filter[OF nomatch] by simp
    also have "\<dots> = find_hostname t c (fst acc) (snd acc)"
      using e by (simp add: find_hostname_scan)
    finally show ?thesis by simp
  qed
  then show ?thesis
    by (simp add: container_step_def self_resolve_cong[OF names ov sel nets] split: sum.splits)
qed

subsection \<open>The override label and the nil address\<close>

lemma ip_override_None_iff:
  "ip_override c = None \<longleftrightarrow>
   map_of (Labels c) ''com.autodns.ip'' = None \<or> map_of (Labels c) ''com.autodns.ip'' = Some []"
  by (auto simp: ip_override_def split: option.splits)

lemma ip_override_Some_iff:
  "ip_override c = Some l \<longleftrightarrow> map_of (Labels c) ''com.autodns.ip'' = Some l \<and> l \<noteq> []"
  by (auto simp: ip_override_def split: option.splits)

lemma IP_String_nil: "IP_String [] = ''<nil>''"
  by (simp add: IP_String_def)

subsection \<open>The loop of \<open>discoverTraefik\<close>\<close>

lemma discoverTraefik_loop_find:
  "discoverTraefik_loop cs lg = Inr (r, lg') \<Longrightarrow>
   (case List.find usable_proxy cs of
      None \<Rightarrow> r = None
    | Some c \<Rightarrow>
        \<exists>name rest. Names c = name # rest \<and>
          r = Some \<lparr>ContainerName = name, HostnameLabel = ''traefik'',
                    IPAddress = ParseIP (proxy_address_text c)\<rparr>)"
proof (induction cs arbitrary: lg)
  case Nil
  then show ?case by simp
next
  case (Cons c cs)
  show ?case
  proof (cases "usable_proxy c")
    case True
    with Cons.prems show ?thesis
      by (auto simp: usable_proxy_def proxy_address_text_def Let_def
               split: list.splits option.splits if_splits)
  next
    case False
    with Cons.prems obtain lg1 where "discoverTraefik_loop cs lg1 = Inr (r, lg')"
      by (auto simp: usable_proxy_def Let_def split: list.splits option.splits if_splits)
    from Cons.IH[OF this] False show ?thesis by simp
  qed
qed

lemma discoverTraefik_loop_returns:
  "\<forall>c \<in> set cs. Names c \<noteq> [] \<Longrightarrow> \<exists>r lg'. discoverTraefik_loop cs lg = Inr (r, lg')"
proof (induction cs arbitrary: lg)
  case Nil
  then show ?case by simp
next
  case (Cons c cs)
  then have ih: "\<And>lg. \<exists>r lg'. discoverTraefik_loop cs lg = Inr (r, lg')" by simp
  from Cons.prems obtain name rest where "Names c = name # rest" by (cases "Names c") auto
  then show ?case using ih
    by (auto simp: Let_def split: option.splits)
qed

subsection \<open>The shape of a parsed address\<close>

lemma bytes_update: "bytes xs \<Longrightarrow> v < 256 \<Longrightarrow> bytes (xs[i := v])"
  unfolding bytes_def using set_update_subset_insert[of xs i v] by auto

lemma bytes_nth: "bytes xs \<Longrightarrow> i < length xs \<Longrightarrow> xs ! i < 256"
  by (simp add: bytes_def)

lemma parseIPv4Fields_loop_shape:
  "parseIPv4Fields_loop s prev val pos digLen fs = Some f \<Longrightarrow> bytes fs \<Longrightarrow>
   length f = length fs \<and> bytes f"
proof (induction s prev val pos digLen fs rule: parseIPv4Fields_loop.induct)
  case (1 prev val pos digLen fs)
  then show ?case by (auto simp: bytes_update split: if_splits)
next
  case (2 c r prev val pos digLen fs)
  show ?case
  proof (cases "is_digit c")
    case True
    with "2.prems" "2.IH"(1)[of "val * 10 + (byte_of c - byte_of CHR ''0'')"] show ?thesis
      by (auto simp: Let_def split: if_splits)
  next
    case False
    with "2.prems" "2.IH"(2) show ?thesis
      by (auto simp: bytes_update split: if_splits)
  qed
qed

lemma parseIPv4Fields_shape: "parseIPv4Fields s = Some f \<Longrightarrow> length f = 4 \<and> bytes f"
  using parseIPv4Fields_loop_shape[of s None 0 0 0 "[0, 0, 0, 0]" f]
  by (simp add: parseIPv4Fields_def bytes_def)

lemma parseIPv6_loop_shape:
  "parseIPv6_loop ip i ellipsis s = Some (ip', i', ellipsis', s') \<Longrightarrow> bytes ip \<Longrightarrow>
   length ip' = length ip \<and> bytes ip'"
proof (induction ip i ellipsis s rule: parseIPv6_loop.induct)
  case (1 ip i ellipsis s)
  show ?case
  proof (cases "i < 16")
    case False
    with "1.prems" show ?thesis by (subst (asm) parseIPv6_loop.simps) simp
  next
    case True
    from "1.prems"(1) True obtain off acc where h: "hex_loop s 0 0 = Some (off, acc)" and off: "off \<noteq> 0"
      by (subst (asm) parseIPv6_loop.simps) (auto split: option.splits if_splits)
    let ?ip = "ip[i := (acc div 256) mod 256, i + 1 := acc mod 256]"
    have ipb: "bytes ?ip" using "1.prems"(2) by (simp add: bytes_update)
    show ?thesis
    proof (cases "off < length s \<and> s ! off = CHR ''.''")
      case dot: True
      with "1.prems"(1) True h off obtain f where f: "parseIPv4Fields s = Some f"
        and r: "ip' = ip[i := f ! 0, i + 1 := f ! 1, i + 2 := f ! 2, i + 3 := f ! 3]"
        by (subst (asm) parseIPv6_loop.simps) (auto split: option.splits if_splits)
      from parseIPv4Fields_shape[OF f] have "f ! 0 < 256" "f ! 1 < 256" "f ! 2 < 256" "f ! 3 < 256"
        by (simp_all add: bytes_nth)
      then show ?thesis using r "1.prems"(2) by (simp add: bytes_update)
    next
      case nodot: False
      from "1.prems"(1) True h off nodot
      have "(ip' = ?ip) \<or>
            (drop off s \<noteq> [] \<and> hd (drop off s) = CHR '':'' \<and> length (drop off s) \<noteq> 1 \<and>
             hd (tl (drop off s)) = CHR '':'' \<and> ellipsis = None \<and> tl (tl (drop off s)) \<noteq> [] \<and>
             parseIPv6_loop ?ip (i + 2) (Some (i + 2)) (tl (tl (drop off s))) =
               Some (ip', i', ellipsis', s')) \<or>
            (drop off s \<noteq> [] \<and> hd (drop off s) = CHR '':'' \<and> length (drop off s) \<noteq> 1 \<and>
             hd (tl (drop off s)) \<noteq> CHR '':'' \<and>
             parseIPv6_loop ?ip (i + 2) ellipsis (tl (drop off s)) = Some (ip', i', ellipsis', s'))"
        by (subst (asm) parseIPv6_loop.simps) (auto simp: Let_def split: if_splits)
      then show ?thesis
      proof (elim disjE conjE)
        assume "ip' = ?ip"
        then show ?thesis using ipb by simp
      next
        assume a: "drop off s \<noteq> []" "hd (drop off s) = CHR '':''" "length (drop off s) \<noteq> 1"
          "hd (tl (drop off s)) = CHR '':''" "ellipsis = None" "tl (tl (drop off s)) \<noteq> []"
          "parseIPv6_loop ?ip (i + 2) (Some (i + 2)) (tl (tl (drop off s))) =
             Some (ip', i', ellipsis', s')"
        have "length ip' = length ?ip \<and> bytes ip'"
          using "1.IH"(1)[of "(off, acc)" off acc ?ip "drop off s"] True h off nodot a ipb
          by auto
        then show ?thesis by simp
      next
        assume a: "drop off s \<noteq> []" "hd (drop off s) = CHR '':''" "length (drop off s) \<noteq> 1"
          "hd (tl (drop off s)) \<noteq> CHR '':''"
          "parseIPv6_loop ?ip (i + 2) ellipsis (tl (drop off s)) = Some (ip', i', ellipsis', s')"
        have "length ip' = length ?ip \<and> bytes ip'"
          using "1.IH"(2)[of "(off, acc)" off acc ?ip "drop off s"] True h off nodot a ipb
          by auto
        then show ?thesis by simp
      qed
    qed
  qed
qed

lemma fold_move_shape:
  "\<forall>j \<in> set js. j < length a \<Longrightarrow> bytes a \<Longrightarrow>
   length (fold (\<lambda>j a. a[j + n := a ! j]) js a) = length a \<and>
   bytes (fold (\<lambda>j a. a[j + n := a ! j]) js a)"
proof (induction js arbitrary: a)
  case Nil
  then show ?case by simp
next
  case (Cons j js)
  let ?a = "a[j + n := a ! j]"
  have "bytes ?a" using Cons.prems by (simp add: bytes_update bytes_nth)
  moreover have "\<forall>j \<in> set js. j < length ?a" using Cons.prems by simp
  ultimately show ?case using Cons.IH[of ?a] by simp
qed

lemma fold_clear_shape:
  "bytes a \<Longrightarrow>
   length (fold (\<lambda>j a. a[j := 0]) js a) = length a \<and> bytes (fold (\<lambda>j a. a[j := 0]) js a)"
proof (induction js arbitrary: a)
  case Nil
  then show ?case by simp
next
  case (Cons j js)
  then show ?case using Cons.IH[of "a[j := 0]"] by (simp add: bytes_update)
qed

lemma expand_ellipsis_shape:
  assumes "bytes ip" "i \<le> length ip"
  shows "length (expand_ellipsis ip i e) = length ip \<and> bytes (expand_ellipsis ip i e)"
proof -
  let ?moved = "fold (\<lambda>j a. a[j + (16 - i) := a ! j]) (rev [e..<i]) ip"
  have "\<forall>j \<in> set (rev [e..<i]). j < length ip" using assms(2) by auto
  from fold_move_shape[OF this assms(1)] have m: "length ?moved = length ip" "bytes ?moved"
    by simp_all
  from fold_clear_shape[OF m(2), of "[e..<e + (16 - i)]"] m(1)
  show ?thesis by (simp add: expand_ellipsis_def Let_def)
qed

lemma bytes_replicate_zero: "bytes (replicate n 0)"
  by (simp add: bytes_def)

lemma parseIPv6_shape:
  assumes "parseIPv6 s = Some (ip, zone)"
  shows "length ip = 16 \<and> bytes ip"
proof -
  let ?s = "takeWhile (\<lambda>c. c \<noteq> CHR ''%'') s"
  let ?lead = "length ?s \<ge> 2 \<and> ?s ! 0 = CHR '':'' \<and> ?s ! 1 = CHR '':''"
  let ?e = "if ?lead then Some 0 else None"
  let ?s1 = "if ?lead then drop 2 ?s else ?s"
  show ?thesis
  proof (cases "?lead \<and> ?s1 = []")
    case True
    with assms have "ip = replicate 16 0"
      by (simp add: parseIPv6_def Let_def split: if_splits)
    then show ?thesis by (simp add: bytes_replicate_zero)
  next
    case False
    with assms obtain ip' i e' s' where
      loop: "parseIPv6_loop (replicate 16 0) 0 ?e ?s1 = Some (ip', i, e', s')" and
      res: "(i < 16 \<and> (\<exists>e. e' = Some e \<and> ip = expand_ellipsis ip' i e)) \<or> ip = ip'"
      by (simp add: parseIPv6_def Let_def split: if_splits option.splits prod.splits)
    from parseIPv6_loop_shape[OF loop bytes_replicate_zero]
    have shape: "length ip' = 16" "bytes ip'" by simp_all
    from res show ?thesis
    proof
      assume "i < 16 \<and> (\<exists>e. e' = Some e \<and> ip = expand_ellipsis ip' i e)"
      then obtain e where "i < 16" "ip = expand_ellipsis ip' i e" by blast
      then show ?thesis using expand_ellipsis_shape[OF shape(2), of i e] shape(1) by simp
    next
      assume "ip = ip'"
      then show ?thesis using shape by simp
    qed
  qed
qed

lemma ParseAddr_shape:
  assumes "ParseAddr s = Some (ip, zone)"
  shows "length ip = 16 \<and> bytes ip"
proof -
  from assms obtain c where
    "List.find (\<lambda>c. c = CHR ''.'' \<or> c = CHR '':'' \<or> c = CHR ''%'') s = Some c"
    by (auto simp: ParseAddr_def split: option.splits)
  with assms have "(\<exists>f. parseIPv4Fields s = Some f \<and> ip = As16 f) \<or> parseIPv6 s = Some (ip, zone)"
    by (auto simp: ParseAddr_def split: if_splits)
  then show ?thesis
  proof
    assume "\<exists>f. parseIPv4Fields s = Some f \<and> ip = As16 f"
    then obtain f where f: "parseIPv4Fields s = Some f" "ip = As16 f" by blast
    from parseIPv4Fields_shape[OF f(1)] show ?thesis
      by (simp add: f(2) As16_def bytes_def)
  next
    assume "parseIPv6 s = Some (ip, zone)"
    then show ?thesis by (rule parseIPv6_shape)
  qed
qed

lemma ParseIP_shape: "ParseIP s = [] \<or> (length (ParseIP s) = 16 \<and> bytes (ParseIP s))"
  using ParseAddr_shape[of s] by (auto simp: ParseIP_def split: option.splits)

lemma IP_String_ParseIP:
  "IP_String (ParseIP x) = ''<nil>'' \<or>
   (\<exists>a b c d. a < 256 \<and> b < 256 \<and> c < 256 \<and> d < 256 \<and>
      IP_String (ParseIP x) = dotted [a, b, c, d]) \<or>
   (\<exists>ip. length ip = 16 \<and> bytes ip \<and> IP_String (ParseIP x) = string6 ip)"
proof -
  from ParseIP_shape[of x] show ?thesis
  proof
    assume "ParseIP x = []"
    then show ?thesis by (simp add: IP_String_def)
  next
    assume s: "length (ParseIP x) = 16 \<and> bytes (ParseIP x)"
    show ?thesis
    proof (cases "length (To4 (ParseIP x)) = 4")
      case False
      with s have "IP_String (ParseIP x) = string6 (ParseIP x)" by (simp add: IP_String_def)
      with s show ?thesis by blast
    next
      case True
      with s have t: "To4 (ParseIP x) = drop 12 (ParseIP x)"
        by (auto simp: To4_def split: if_splits)
      from True obtain a b c d where abcd: "To4 (ParseIP x) = [a, b, c, d]"
        by (auto simp: length_Suc_conv numeral_eq_Suc)
      have "set (To4 (ParseIP x)) \<subseteq> set (ParseIP x)" unfolding t by (rule set_drop_subset)
      with s abcd have "a < 256 \<and> b < 256 \<and> c < 256 \<and> d < 256" by (auto simp: bytes_def)
      moreover from s True abcd have "IP_String (ParseIP x) = dotted [a, b, c, d]"
        by (simp add: IP_String_def)
      ultimately show ?thesis by blast
    qed
  qed
qed

subsection \<open>An IPv6 override, evaluated\<close>








subsection \<open>Discovery returns\<close>

text \<open>
  The only way a run over an inventory ends without a result is the panic on a
  container without a name: where every container has a name, \<open>discover\<close> returns.
\<close>

lemma self_resolve_returns:
  "Names c \<noteq> [] \<Longrightarrow> \<exists>acc'. self_resolve c h acc = Inr acc'"
  by (cases "Names c") (auto simp: self_resolve_def Let_def split: option.splits)

lemma label_loop_returns_named:
  "Names c \<noteq> [] \<Longrightarrow> \<exists>st'. label_loop t c ls st = Inr st'"
proof -
  assume "Names c \<noteq> []"
  then obtain name rest where n: "Names c = name # rest" by (cases "Names c") auto
  show ?thesis
  proof (cases t)
    case None
    with label_loop_None[OF n, of ls st] show ?thesis by blast
  next
    case (Some p)
    with label_loop_Some[OF n, of p ls st] show ?thesis by blast
  qed
qed

lemma container_step_returns:
  assumes "Names c \<noteq> []"
  shows "\<exists>acc'. container_step t c acc = Inr acc'"
proof -
  from label_loop_returns_named[OF assms] have
    "\<exists>st. find_hostname t c (fst acc) (snd acc) = Inr st"
    by (auto simp: find_hostname_def Let_def)
  then obtain st where st: "find_hostname t c (fst acc) (snd acc) = Inr st" by blast
  from self_resolve_returns[OF assms] show ?thesis
    by (auto simp: container_step_def st)
qed

lemma container_loop_returns:
  "\<forall>c \<in> set cs. Names c \<noteq> [] \<Longrightarrow> \<exists>acc'. container_loop t cs acc = Inr acc'"
proof (induction cs arbitrary: acc)
  case Nil
  then show ?case by simp
next
  case (Cons c cs)
  from Cons.prems container_step_returns[of c t acc] obtain acc1 where
    "container_step t c acc = Inr acc1" by auto
  moreover from Cons.IH[of acc1] Cons.prems obtain acc2 where
    "container_loop t cs acc1 = Inr acc2" by auto
  ultimately show ?case by simp
qed

lemma discover_returns:
  assumes "\<forall>c \<in> set containers. Names c \<noteq> []"
  shows "\<exists>services lg. discover (Inr containers) = Inr (services, lg)"
proof -
  from discoverTraefik_loop_returns[OF assms,
      of "[(InfoLevel, ''Discovering services...'')] @ [(InfoLevel, ''Searching for Traefik services...'')]"]
  obtain t lg1 where
    t: "discoverTraefik (Inr containers) [(InfoLevel, ''Discovering services...'')] = Inr (t, lg1)"
    unfolding discoverTraefik_def by auto
  from container_loop_returns[OF assms, of t "([], lg1)"] obtain ds lg2 where
    "container_loop t containers ([], lg1) = Inr (ds, lg2)" by auto
  with t show ?thesis by (simp add: discover_def)
qed

subsection \<open>Where an address comes from\<close>






subsection \<open>The text of an IPv4 address\<close>







section \<open>The claims\<close>

subsection \<open>C1: rule labels without a proxy\<close>

text \<open>
  C1 says that without a proxy no host name of a Traefik rule reaches the table. The
  inventory here is \<open>svc1\<close> alone: no container runs the image \<open>traefik\<close>, so
  \<open>discoverTraefik\<close> returns nothing. The loop over the labels of \<open>svc1\<close> logs that it
  is skipping the container, but its \<open>continue\<close> only goes on with the next label, and
  the host name it has stored sends the container down the path of a self-named one:
  \<open>site.io\<close> is registered at the container's own bridge address.
\<close>

theorem C1_rule_hostname_without_proxy:
  "(case discoverTraefik (Inr [svc1]) [] of Inr (t, lg) \<Rightarrow> t = None | Inl e \<Rightarrow> False) \<and>
   (case discover (Inr [svc1]) of
      Inr (services, lg) \<Rightarrow>
        services = [\<lparr>ContainerName = ''/svc1'', HostnameLabel = ''site.io'',
                     IPAddress = ParseIP ''172.17.0.3''\<rparr>] \<and>
        (WarnLevel, ''Container `/svc1` has Traefik hostname `site.io`, but no Traefik service discovered, skipping'')
          \<in> set lg \<and>
        serviceMap services ''site.io.'' = Some ''172.17.0.3''
    | Inl e \<Rightarrow> False)"
  by code_simp

subsection \<open>C2: the explicit host name label\<close>

text \<open>
  C2. Where \<open>com.autodns.hostname\<close> has a non-empty value \<open>h\<close>, the loop body takes \<open>h\<close>
  as the host name without looking at any other label, so whatever Traefik rules the
  container carries, a service it adds is named \<open>h\<close>. Where the label is present but
  empty, the labels are scanned for a Traefik rule as when the label is absent: the
  container is treated exactly as the same container without that label.
\<close>

theorem C2_explicit_hostname_first:
  "(\<forall>h. map_of (Labels c) ''com.autodns.hostname'' = Some h \<and> h \<noteq> [] \<longrightarrow>
      find_hostname t c ds lg =
        Inr \<lparr>hostname = h, routed = False, discovered = ds, logged = lg\<rparr> \<and>
      (\<forall>ds' lg'. container_step t c (ds, lg) = Inr (ds', lg') \<longrightarrow>
         ds' = ds \<or>
         (\<exists>name x. ds' = ds @ [\<lparr>ContainerName = name, HostnameLabel = h,
                                  IPAddress = ParseIP x\<rparr>]))) \<and>
   (wf_container c \<and> map_of (Labels c) ''com.autodns.hostname'' = Some [] \<longrightarrow>
      find_hostname t c ds lg =
        label_loop t c (Labels c) \<lparr>hostname = [], routed = False, discovered = ds, logged = lg\<rparr> \<and>
      container_step t c (ds, lg) =
        container_step t (c\<lparr>Labels := filter (\<lambda>lv. fst lv \<noteq> ''com.autodns.hostname'') (Labels c)\<rparr>)
          (ds, lg))"
proof (intro conjI allI impI)
  fix h assume h: "map_of (Labels c) ''com.autodns.hostname'' = Some h \<and> h \<noteq> []"
  then show "find_hostname t c ds lg =
      Inr \<lparr>hostname = h, routed = False, discovered = ds, logged = lg\<rparr>"
    by (simp add: find_hostname_explicit)
  fix ds' lg' assume "container_step t c (ds, lg) = Inr (ds', lg')"
  with h have "self_resolve c h (ds, lg) = Inr (ds', lg')"
    by (simp add: container_step_explicit)
  then show "ds' = ds \<or>
      (\<exists>name x. ds' = ds @ [\<lparr>ContainerName = name, HostnameLabel = h, IPAddress = ParseIP x\<rparr>])"
    by (rule self_resolve_one)
next
  assume a: "wf_container c \<and> map_of (Labels c) ''com.autodns.hostname'' = Some []"
  then show "find_hostname t c ds lg =
      label_loop t c (Labels c) \<lparr>hostname = [], routed = False, discovered = ds, logged = lg\<rparr>"
    by (simp add: find_hostname_scan)
  from a show "container_step t c (ds, lg) =
      container_step t (c\<lparr>Labels := filter (\<lambda>lv. fst lv \<noteq> ''com.autodns.hostname'') (Labels c)\<rparr>)
        (ds, lg)"
    by (simp add: container_step_empty_hostname)
qed

theorem C2_explicit_hostname_first_witness:
  "find_hostname (Some proxy1_service) web2 [] [] =
     Inr \<lparr>hostname = ''app.local'', routed = False, discovered = [], logged = []\<rparr> \<and>
   container_step (Some proxy1_service) web2 ([], []) =
     Inr ([\<lparr>ContainerName = ''/web2'', HostnameLabel = ''app.local'',
            IPAddress = ParseIP ''172.17.0.6''\<rparr>], []) \<and>
   container_step (Some proxy1_service) svc2 ([], []) =
     container_step (Some proxy1_service)
       (svc2\<lparr>Labels := [(''traefik.http.routers.svc.rule'', ''Host(`site.io`)'')]\<rparr>) ([], [])"
proof -
  have h: "map_of (Labels web2) ''com.autodns.hostname'' = Some ''app.local'' \<and> ''app.local'' \<noteq> []"
    by (simp add: web2_def)
  have step: "container_step (Some proxy1_service) web2 ([], []) =
     Inr ([\<lparr>ContainerName = ''/web2'', HostnameLabel = ''app.local'',
            IPAddress = ParseIP ''172.17.0.6''\<rparr>], [])"
    by code_simp
  have e: "wf_container svc2 \<and> map_of (Labels svc2) ''com.autodns.hostname'' = Some []"
    by (simp add: svc2_def wf_container_def)
  have f: "filter (\<lambda>lv. fst lv \<noteq> ''com.autodns.hostname'') (Labels svc2) =
      [(''traefik.http.routers.svc.rule'', ''Host(`site.io`)'')]"
    by (simp add: svc2_def)
  from C2_explicit_hostname_first[of web2 "Some proxy1_service" "[]" "[]"] h
  have 1: "find_hostname (Some proxy1_service) web2 [] [] =
     Inr \<lparr>hostname = ''app.local'', routed = False, discovered = [], logged = []\<rparr>"
    by blast
  from C2_explicit_hostname_first[of svc2 "Some proxy1_service" "[]" "[]"] e
  have 2: "container_step (Some proxy1_service) svc2 ([], []) =
     container_step (Some proxy1_service)
       (svc2\<lparr>Labels := filter (\<lambda>lv. fst lv \<noteq> ''com.autodns.hostname'') (Labels svc2)\<rparr>) ([], [])"
    by blast
  from 1 step 2 show ?thesis unfolding f by simp
qed

subsection \<open>C3: a rule label with a proxy\<close>

text \<open>
  C3 as stated fails: \<open>svc1\<close> has no name of its own and the rule \<open>Host(`site.io`)\<close>, the
  proxy \<open>proxy1\<close> is discovered at 172.17.0.9, but \<open>web7\<close>, later in the inventory, names
  itself \<open>site.io\<close>; its service overwrites the entry, and the table maps \<open>site.io.\<close> to
  172.17.0.11.
\<close>

theorem C3_overwritten_entry_counterexample:
  "(case discoverTraefik (Inr [proxy1, svc1, web7]) [(InfoLevel, ''Discovering services...'')] of
      Inr (t, lg) \<Rightarrow> t = Some proxy1_service
    | Inl e \<Rightarrow> False) \<and>
   IP_String (IPAddress proxy1_service) = ''172.17.0.9'' \<and>
   map_of (Labels svc1) ''com.autodns.hostname'' = None \<and>
   Labels svc1 = [(''traefik.http.routers.svc.rule'', ''Host(`site.io`)'')] \<and>
   (case discover (Inr [proxy1, svc1, web7]) of
      Inr (services, lg) \<Rightarrow> serviceMap services ''site.io.'' = Some ''172.17.0.11''
    | Inl e \<Rightarrow> False)"
  by code_simp

text \<open>
  C3, amended. Let a container of the inventory have no usable name of its own and a
  label \<open>traefik.http.routers.<name>.rule\<close> with the value \<open>Host(`<fqdn>`)\<close>, where the name
  is a router name and the fqdn is made of DNS labels joined by dots, and let the proxy
  be discovered with address \<open>A\<close>. Then the services of a finished discovery hold one
  that binds the fqdn to \<open>A\<close>, and the table has an entry for the fqdn with a trailing
  dot. The entry is the address of the last service with that host name: it is \<open>A\<close>
  unless a service with the same host name and another address is added later.
\<close>

theorem C3_rule_label_bound_to_proxy:
  assumes "discover (Inr containers) = Inr (services, lg)"
    and "discoverTraefik (Inr containers) [(InfoLevel, ''Discovering services...'')] =
           Inr (Some proxy, lg1)"
    and "c \<in> set containers"
    and "map_of (Labels c) ''com.autodns.hostname'' = None \<or>
         map_of (Labels c) ''com.autodns.hostname'' = Some []"
    and "(''traefik.http.routers.'' @ name @ ''.rule'', ''Host(`'' @ fqdn @ ''`)'') \<in> set (Labels c)"
    and "router_name name" and "labels \<noteq> []" and "list_all dns_label labels"
    and "fqdn = join ''.'' labels"
  shows "(\<exists>n. \<lparr>ContainerName = n, HostnameLabel = fqdn, IPAddress = IPAddress proxy\<rparr>
            \<in> set services) \<and>
         serviceMap services (fqdn @ ''.'') =
           Some (IP_String (IPAddress (last (filter (\<lambda>s. HostnameLabel s = fqdn) services)))) \<and>
         ((\<forall>s \<in> set services. HostnameLabel s = fqdn \<longrightarrow> IPAddress s = IPAddress proxy) \<longrightarrow>
            serviceMap services (fqdn @ ''.'') = Some (IP_String (IPAddress proxy)))"
proof -
  from discover_Inr[OF assms(1)] assms(2) obtain lg2 where
    loop: "container_loop (Some proxy) containers ([], lg1) = Inr (services, lg2)" by auto
  from container_loop_mem[OF loop assms(3)] obtain ds0 lg0 ds1 lg3 new where
    step: "container_step (Some proxy) c (ds0, lg0) = Inr (ds1, lg3)" and
    services: "services = ds1 @ new" by blast
  let ?w = "''traefik.http.routers.'' @ name @ ''.rule=Host(`'' @ fqdn @ ''`)''"
  have "FindStringSubmatch ((''traefik.http.routers.'' @ name @ ''.rule'') @ ''='' @
           (''Host(`'' @ fqdn @ ''`)'')) = [?w, name, fqdn]"
    unfolding assms(9) by (rule FindStringSubmatch_rule_label[OF assms(6,7,8)])
  from label_matches_mem[OF assms(5) this]
  have m: "[?w, name, fqdn] \<in> set (label_matches (Labels c))" .
  then have ne: "label_matches (Labels c) \<noteq> []" by auto
  obtain n rest where names: "Names c = n # rest"
    using step container_step_panic[OF assms(4) ne] by (cases "Names c") auto
  from container_step_routed[OF assms(4) ne names, of proxy ds0 lg0] step
  have ds1: "ds1 = ds0 @ map (\<lambda>m. \<lparr>ContainerName = n, HostnameLabel = m ! 2,
                                     IPAddress = IPAddress proxy\<rparr>) (label_matches (Labels c))"
    by auto
  have "\<lparr>ContainerName = n, HostnameLabel = fqdn, IPAddress = IPAddress proxy\<rparr>
      \<in> (\<lambda>m. \<lparr>ContainerName = n, HostnameLabel = m ! 2, IPAddress = IPAddress proxy\<rparr>) `
        set (label_matches (Labels c))"
    by (rule image_eqI[OF _ m]) simp
  then have "\<lparr>ContainerName = n, HostnameLabel = fqdn, IPAddress = IPAddress proxy\<rparr> \<in> set ds1"
    unfolding ds1 by simp
  then have mem: "\<lparr>ContainerName = n, HostnameLabel = fqdn, IPAddress = IPAddress proxy\<rparr>
      \<in> set services"
    unfolding services by simp
  then have "filter (\<lambda>s. HostnameLabel s = fqdn) services \<noteq> []"
    unfolding filter_empty_conv
    by (intro notI) (drule bspec, assumption, simp)
  then obtain x xs where f: "filter (\<lambda>s. HostnameLabel s = fqdn) services = x # xs"
    by (cases "filter (\<lambda>s. HostnameLabel s = fqdn) services") auto
  have tbl: "serviceMap services (fqdn @ ''.'') =
      Some (IP_String (IPAddress (last (filter (\<lambda>s. HostnameLabel s = fqdn) services))))"
    by (simp add: serviceMap_lookup f)
  have "last (x # xs) \<in> set (filter (\<lambda>s. HostnameLabel s = fqdn) services)"
    unfolding f by (rule last_in_set) simp
  then have l: "last (x # xs) \<in> set services \<and> HostnameLabel (last (x # xs)) = fqdn" by auto
  from mem tbl l show ?thesis unfolding f by auto
qed

theorem C3_rule_label_bound_to_proxy_witness:
  "\<exists>services lg.
     discover (Inr [proxy1, svc1, web1]) = Inr (services, lg) \<and>
     \<lparr>ContainerName = ''/svc1'', HostnameLabel = ''site.io'',
      IPAddress = IPAddress proxy1_service\<rparr> \<in> set services \<and>
     serviceMap services ''site.io.'' = Some ''172.17.0.9''"
proof -
  obtain services lg where d: "discover (Inr [proxy1, svc1, web1]) = Inr (services, lg)"
    and s: "services =
      [\<lparr>ContainerName = ''/svc1'', HostnameLabel = ''site.io'', IPAddress = IPAddress proxy1_service\<rparr>,
       \<lparr>ContainerName = ''/web1'', HostnameLabel = ''app.local'', IPAddress = ParseIP ''172.17.0.5''\<rparr>]"
  proof -
    have "case discover (Inr [proxy1, svc1, web1]) of
        Inr (services, lg) \<Rightarrow> services =
          [\<lparr>ContainerName = ''/svc1'', HostnameLabel = ''site.io'', IPAddress = IPAddress proxy1_service\<rparr>,
           \<lparr>ContainerName = ''/web1'', HostnameLabel = ''app.local'', IPAddress = ParseIP ''172.17.0.5''\<rparr>]
      | Inl e \<Rightarrow> False"
      by code_simp
    then show ?thesis using that by (auto split: sum.splits)
  qed
  obtain lg1 where t: "discoverTraefik (Inr [proxy1, svc1, web1]) [(InfoLevel, ''Discovering services...'')] =
      Inr (Some proxy1_service, lg1)"
  proof -
    have "case discoverTraefik (Inr [proxy1, svc1, web1]) [(InfoLevel, ''Discovering services...'')] of
        Inr (t, lg) \<Rightarrow> t = Some proxy1_service | Inl e \<Rightarrow> False"
      by code_simp
    then show ?thesis using that by (auto split: sum.splits)
  qed
  have c: "svc1 \<in> set [proxy1, svc1, web1]" by simp
  have h: "map_of (Labels svc1) ''com.autodns.hostname'' = None \<or>
           map_of (Labels svc1) ''com.autodns.hostname'' = Some []"
    by (simp add: svc1_def)
  have l: "(''traefik.http.routers.'' @ ''svc'' @ ''.rule'', ''Host(`'' @ ''site.io'' @ ''`)'')
      \<in> set (Labels svc1)"
    by (simp add: svc1_def)
  have r: "router_name ''svc''" by code_simp
  have ne: "[''site'', ''io''] \<noteq> []" by simp
  have ls: "list_all dns_label [''site'', ''io'']" by code_simp
  have j: "''site.io'' = join ''.'' [''site'', ''io'']" by simp
  have only: "\<forall>s \<in> set services. HostnameLabel s = ''site.io'' \<longrightarrow>
      IPAddress s = IPAddress proxy1_service"
    unfolding s by simp
  have ip: "IP_String (IPAddress proxy1_service) = ''172.17.0.9''" by code_simp
  from C3_rule_label_bound_to_proxy[OF d t c h l r ne ls j]
  have "(\<forall>s \<in> set services. HostnameLabel s = ''site.io'' \<longrightarrow>
           IPAddress s = IPAddress proxy1_service) \<longrightarrow>
        serviceMap services (''site.io'' @ ''.'') = Some (IP_String (IPAddress proxy1_service))"
    by blast
  with only have "serviceMap services (''site.io'' @ ''.'') =
      Some (IP_String (IPAddress proxy1_service))"
    by blast
  then have "serviceMap services (''site.io'' @ ''.'') = Some ''172.17.0.9''"
    unfolding ip .
  then have "serviceMap services ''site.io.'' = Some ''172.17.0.9''" by simp
  moreover have "\<lparr>ContainerName = ''/svc1'', HostnameLabel = ''site.io'',
      IPAddress = IPAddress proxy1_service\<rparr> \<in> set services"
    unfolding s by simp
  ultimately show ?thesis using d by blast
qed

subsection \<open>C4: the proxy's address\<close>

text \<open>
  C4 as stated fails: \<open>proxy0\<close> is the first container with the image name \<open>traefik\<close>,
  it has no override and no attachment on its selected network \<open>bridge\<close>, and the
  resolver still returns a result, taken from the later container \<open>proxy1\<close>.
\<close>

theorem C4_skipped_proxy_counterexample:
  "imageName proxy0 = ''traefik'' \<and> ip_override proxy0 = None \<and>
   selected_network proxy0 = ''bridge'' \<and> map_of (Networks proxy0) ''bridge'' = None \<and>
   (case discoverTraefik (Inr [proxy0, proxy1]) [] of
      Inr (r, lg) \<Rightarrow>
        r = Some \<lparr>ContainerName = ''/proxy1'', HostnameLabel = ''traefik'',
                  IPAddress = ParseIP ''172.17.0.9''\<rparr>
    | Inl e \<Rightarrow> False)"
  by code_simp

text \<open>
  C4, amended. The resolver returns at most one result. It is derived from the first
  container in inventory order whose image name (the image reference up to the first
  colon) is exactly \<open>traefik\<close> and that has a non-empty \<open>com.autodns.ip\<close> override or an
  attachment with a non-empty address on its selected network; its address is parsed
  from that override, or else from that attachment's address. A Traefik container whose
  selected network has no attachment or an empty address is passed over, and the later
  containers are considered; the result is none only when no container qualifies. The
  resolver returns whenever every container has a name.
\<close>

theorem C4_first_usable_proxy:
  "(\<forall>r lg'. discoverTraefik (Inr containers) lg = Inr (r, lg') \<longrightarrow>
      (case List.find usable_proxy containers of
         None \<Rightarrow> r = None
       | Some c \<Rightarrow>
           \<exists>name rest. Names c = name # rest \<and>
             r = Some \<lparr>ContainerName = name, HostnameLabel = ''traefik'',
                       IPAddress = ParseIP (proxy_address_text c)\<rparr>)) \<and>
   ((\<forall>c \<in> set containers. Names c \<noteq> []) \<longrightarrow>
      (\<exists>r lg'. discoverTraefik (Inr containers) lg = Inr (r, lg')))"
  using discoverTraefik_loop_find discoverTraefik_loop_returns
  by (auto simp: discoverTraefik_def)

theorem C4_first_usable_proxy_witness:
  "\<exists>lg'. discoverTraefik (Inr [proxy0, proxy1]) [] = Inr (Some proxy1_service, lg')"
proof -
  have names: "\<forall>c \<in> set [proxy0, proxy1]. Names c \<noteq> []" by (simp add: proxy0_def proxy1_def)
  have find: "List.find usable_proxy [proxy0, proxy1] = Some proxy1" by code_simp
  have svc: "\<lparr>ContainerName = ''/proxy1'', HostnameLabel = ''traefik'',
               IPAddress = ParseIP (proxy_address_text proxy1)\<rparr> = proxy1_service"
    by code_simp
  have n1: "Names proxy1 = [''/proxy1'']" by (simp add: proxy1_def)
  from C4_first_usable_proxy[of "[proxy0, proxy1]" "[]"] names
  obtain r lg' where r: "discoverTraefik (Inr [proxy0, proxy1]) [] = Inr (r, lg')" by blast
  with C4_first_usable_proxy[of "[proxy0, proxy1]" "[]"] find
  have "\<exists>name rest. Names proxy1 = name # rest \<and>
          r = Some \<lparr>ContainerName = name, HostnameLabel = ''traefik'',
                    IPAddress = ParseIP (proxy_address_text proxy1)\<rparr>"
    by fastforce
  with n1 svc have "r = Some proxy1_service" by auto
  with r show ?thesis by blast
qed

subsection \<open>C5: an override that is no address\<close>

text \<open>
  C5 as stated fails: \<open>web5\<close> names itself \<open>app.local\<close> and its override \<open>garbage\<close> is
  no address, yet \<open>discover\<close> returns a service for it, with the \<open>nil\<close> address of the
  failed parse.
\<close>

theorem C5_unparsable_override_counterexample:
  "map_of (Labels web5) ''com.autodns.ip'' = Some ''garbage'' \<and> ParseIP ''garbage'' = [] \<and>
   (case discover (Inr [web5]) of
      Inr (services, lg) \<Rightarrow>
        services = [\<lparr>ContainerName = ''/web5'', HostnameLabel = ''app.local'', IPAddress = []\<rparr>]
    | Inl e \<Rightarrow> False)"
  by code_simp

text \<open>
  C5, amended. The program never looks at the result of \<open>net.ParseIP\<close>. A self-named
  container whose \<open>com.autodns.ip\<close> is non-empty but no address is not skipped: its
  round adds a service with the \<open>nil\<close> address, which the table renders as \<open><nil>\<close>,
  logs the override at level Info, and the loop goes on with the remaining containers.
  A Traefik container with such an override is returned by \<open>discoverTraefik\<close> with the
  \<open>nil\<close> address.
\<close>

theorem C5_unparsable_override_keeps_service:
  assumes "map_of (Labels c) ''com.autodns.ip'' = Some l" and "l \<noteq> []" and "ParseIP l = []"
    and "Names c = name # rest"
  shows "(\<forall>h. map_of (Labels c) ''com.autodns.hostname'' = Some h \<and> h \<noteq> [] \<longrightarrow>
            container_step t c (ds, lg) =
              Inr (ds @ [\<lparr>ContainerName = name, HostnameLabel = h, IPAddress = []\<rparr>],
                   lg @ [(InfoLevel, ''Container `'' @ name @
                            ''` has its own IP address specified: `'' @ l @ ''`'')]) \<and>
            container_loop t (c # cs) (ds, lg) =
              container_loop t cs
                (ds @ [\<lparr>ContainerName = name, HostnameLabel = h, IPAddress = []\<rparr>],
                 lg @ [(InfoLevel, ''Container `'' @ name @
                          ''` has its own IP address specified: `'' @ l @ ''`'')]) \<and>
            serviceMap (ds @ [\<lparr>ContainerName = name, HostnameLabel = h, IPAddress = []\<rparr>])
              (h @ ''.'') = Some ''<nil>'') \<and>
         (imageName c = ''traefik'' \<longrightarrow>
            discoverTraefik_loop (c # cs) lg =
              Inr (Some \<lparr>ContainerName = name, HostnameLabel = ''traefik'', IPAddress = []\<rparr>,
                   lg @ [(InfoLevel, ''Container `'' @ name @
                            ''` has its own IP address specified: `'' @ l @ ''`'')]))"
proof -
  have ov: "ip_override c = Some l" using assms(1,2) by (simp add: ip_override_Some_iff)
  show ?thesis
    using ov assms(3,4)
    by (auto simp: container_step_explicit self_resolve_def serviceMap_snoc IP_String_nil)
qed

theorem C5_unparsable_override_keeps_service_witness:
  "container_step None web5 ([], []) =
     Inr ([\<lparr>ContainerName = ''/web5'', HostnameLabel = ''app.local'', IPAddress = []\<rparr>],
          [(InfoLevel, ''Container `/web5` has its own IP address specified: `garbage`'')]) \<and>
   serviceMap [\<lparr>ContainerName = ''/web5'', HostnameLabel = ''app.local'', IPAddress = []\<rparr>]
     ''app.local.'' = Some ''<nil>'' \<and>
   discoverTraefik_loop [proxy4] [] =
     Inr (Some \<lparr>ContainerName = ''/proxy4'', HostnameLabel = ''traefik'', IPAddress = []\<rparr>,
          [(InfoLevel, ''Container `/proxy4` has its own IP address specified: `host-gateway`'')])"
proof -
  have 1: "map_of (Labels web5) ''com.autodns.ip'' = Some ''garbage''"
    and 2: "''garbage'' \<noteq> []"
    and 4: "Names web5 = ''/web5'' # []"
    and 5: "map_of (Labels web5) ''com.autodns.hostname'' = Some ''app.local'' \<and> ''app.local'' \<noteq> []"
    by (simp_all add: web5_def)
  have 3: "ParseIP ''garbage'' = []" by code_simp
  have p1: "map_of (Labels proxy4) ''com.autodns.ip'' = Some ''host-gateway''"
    and p2: "''host-gateway'' \<noteq> []"
    and p4: "Names proxy4 = ''/proxy4'' # []"
    and p5: "imageName proxy4 = ''traefik''"
    by (simp_all add: proxy4_def imageName_def)
  have p3: "ParseIP ''host-gateway'' = []" by code_simp
  from C5_unparsable_override_keeps_service[OF 1 2 3 4, where t = None and ds = "[]" and lg = "[]"] 5
  have a: "container_step None web5 ([], []) =
     Inr ([\<lparr>ContainerName = ''/web5'', HostnameLabel = ''app.local'', IPAddress = []\<rparr>],
          [(InfoLevel, ''Container `/web5` has its own IP address specified: `garbage`'')]) \<and>
     serviceMap [\<lparr>ContainerName = ''/web5'', HostnameLabel = ''app.local'', IPAddress = []\<rparr>]
       ''app.local.'' = Some ''<nil>''"
    by simp
  from C5_unparsable_override_keeps_service[OF p1 p2 p3 p4, where cs = "[]" and lg = "[]"] p5
  have b: "discoverTraefik_loop [proxy4] [] =
     Inr (Some \<lparr>ContainerName = ''/proxy4'', HostnameLabel = ''traefik'', IPAddress = []\<rparr>,
          [(InfoLevel, ''Container `/proxy4` has its own IP address specified: `host-gateway`'')])"
    by simp
  from a b show ?thesis by simp
qed

subsection \<open>C6: the answers to queries\<close>

text \<open>
  C6. For a query whose first question names a key of the table, the handler writes a
  reply with exactly one record of type A: its name is the query name, its class is
  Internet, its TTL is 3600 and its address is the stored table value (parsed by
  \<open>net.ParseIP\<close>); the reply is authoritative, has recursion available and is not
  compressed. For a name that is no key of the table, the reply has no answer record.
  In both cases the reply carries the transaction id of the query.
\<close>

theorem C6_query_answers:
  assumes "Questions r = q # qs"
  shows "(\<forall>ip. table (QName q) = Some ip \<longrightarrow>
            (\<exists>resp. fst (handler table write_err r) = Some resp \<and>
               Answer resp =
                 [\<lparr>Hdr = \<lparr>Name = QName q, Rrtype = TypeA, Class = ClassINET, Ttl = 3600\<rparr>,
                   AddrA = ParseIP ip\<rparr>] \<and>
               Authoritative resp \<and> RecursionAvailable resp \<and> \<not> Compress resp \<and>
               Id resp = Id r)) \<and>
         (table (QName q) = None \<longrightarrow>
            (\<exists>resp. fst (handler table write_err r) = Some resp \<and>
               Answer resp = [] \<and> Id resp = Id r))"
  using assms
  by (simp add: handler_def makeResponse_def SetReply_def new_Msg_def Let_def)

theorem C6_query_answers_witness:
  "(\<exists>resp. fst (handler (serviceMap [\<lparr>ContainerName = ''/web1'', HostnameLabel = ''app.local'',
                                        IPAddress = ParseIP ''172.17.0.5''\<rparr>])
                   None (query ''app.local.'')) = Some resp \<and>
      Answer resp =
        [\<lparr>Hdr = \<lparr>Name = ''app.local.'', Rrtype = TypeA, Class = ClassINET, Ttl = 3600\<rparr>,
          AddrA = [0, 0, 0, 0, 0, 0, 0, 0, 0, 0, 255, 255, 172, 17, 0, 5]\<rparr>] \<and>
      Authoritative resp \<and> RecursionAvailable resp \<and> \<not> Compress resp \<and> Id resp = 4711) \<and>
   (\<exists>resp. fst (handler (serviceMap [\<lparr>ContainerName = ''/web1'', HostnameLabel = ''app.local'',
                                        IPAddress = ParseIP ''172.17.0.5''\<rparr>])
                   None (query ''other.local.'')) = Some resp \<and>
      Answer resp = [] \<and> Id resp = 4711)"
proof -
  let ?T = "serviceMap [\<lparr>ContainerName = ''/web1'', HostnameLabel = ''app.local'',
                         IPAddress = ParseIP ''172.17.0.5''\<rparr>]"
  let ?q1 = "\<lparr>QName = ''app.local.'', Qtype = TypeA, Qclass = ClassINET\<rparr>"
  let ?q2 = "\<lparr>QName = ''other.local.'', Qtype = TypeA, Qclass = ClassINET\<rparr>"
  have q1: "Questions (query ''app.local.'') = ?q1 # []" by (simp add: query_def)
  have q2: "Questions (query ''other.local.'') = ?q2 # []" by (simp add: query_def)
  have hit: "?T (QName ?q1) = Some ''172.17.0.5''" by code_simp
  have miss: "?T (QName ?q2) = None" by code_simp
  have parse: "ParseIP ''172.17.0.5'' = [0, 0, 0, 0, 0, 0, 0, 0, 0, 0, 255, 255, 172, 17, 0, 5]"
    by code_simp
  have id: "Id (query ''app.local.'') = 4711" "Id (query ''other.local.'') = 4711"
    by (simp_all add: query_def)
  from C6_query_answers[OF q1, of ?T None] hit parse id(1)
  have 1: "\<exists>resp. fst (handler ?T None (query ''app.local.'')) = Some resp \<and>
      Answer resp =
        [\<lparr>Hdr = \<lparr>Name = ''app.local.'', Rrtype = TypeA, Class = ClassINET, Ttl = 3600\<rparr>,
          AddrA = [0, 0, 0, 0, 0, 0, 0, 0, 0, 0, 255, 255, 172, 17, 0, 5]\<rparr>] \<and>
      Authoritative resp \<and> RecursionAvailable resp \<and> \<not> Compress resp \<and> Id resp = 4711"
    by simp
  from C6_query_answers[OF q2, of ?T None] miss id(2)
  have 2: "\<exists>resp. fst (handler ?T None (query ''other.local.'')) = Some resp \<and>
      Answer resp = [] \<and> Id resp = 4711"
    by simp
  from 1 2 show ?thesis by blast
qed

subsection \<open>C7: services per container\<close>

text \<open>
  C7 as stated fails: \<open>svc3\<close> carries two well-formed Traefik rules, and with the proxy
  \<open>proxy1\<close> in the inventory \<open>discover\<close> returns two services for it, one per rule.
\<close>

theorem C7_two_rules_counterexample:
  "wf_container svc3 \<and>
   (case discover (Inr [proxy1, svc3]) of
      Inr (services, lg) \<Rightarrow>
        services =
          [\<lparr>ContainerName = ''/svc3'', HostnameLabel = ''a.io'', IPAddress = ParseIP ''172.17.0.9''\<rparr>,
           \<lparr>ContainerName = ''/svc3'', HostnameLabel = ''b.io'', IPAddress = ParseIP ''172.17.0.9''\<rparr>]
    | Inl e \<Rightarrow> False)"
  by code_simp

text \<open>
  C7, amended. A container that names itself adds at most one service. For a container
  without a usable name of its own, when a proxy has been discovered, the loop over the
  labels does not stop at the first match: the container adds exactly one service per
  label that matches the rule pattern, in the order the loop visits the labels, each
  named by the host of its rule and bound to the proxy's address.
\<close>

theorem C7_one_service_per_match:
  "(\<forall>h. map_of (Labels c) ''com.autodns.hostname'' = Some h \<and> h \<noteq> [] \<longrightarrow>
      (\<forall>ds' lg'. container_step t c (ds, lg) = Inr (ds', lg') \<longrightarrow>
         length ds' \<le> length ds + 1)) \<and>
   (\<forall>name rest.
      (map_of (Labels c) ''com.autodns.hostname'' = None \<or>
       map_of (Labels c) ''com.autodns.hostname'' = Some []) \<and> Names c = name # rest \<longrightarrow>
      (\<exists>lg'. container_step (Some p) c (ds, lg) =
         Inr (ds @ map (\<lambda>m. \<lparr>ContainerName = name, HostnameLabel = m ! 2,
                               IPAddress = IPAddress p\<rparr>)
                      (label_matches (Labels c)), lg')))"
proof (intro conjI allI impI)
  fix h ds' lg'
  assume "map_of (Labels c) ''com.autodns.hostname'' = Some h \<and> h \<noteq> []"
    and "container_step t c (ds, lg) = Inr (ds', lg')"
  then have "self_resolve c h (ds, lg) = Inr (ds', lg')" by (simp add: container_step_explicit)
  from self_resolve_one[OF this] show "length ds' \<le> length ds + 1" by auto
next
  fix name rest
  assume a: "(map_of (Labels c) ''com.autodns.hostname'' = None \<or>
       map_of (Labels c) ''com.autodns.hostname'' = Some []) \<and> Names c = name # rest"
  show "\<exists>lg'. container_step (Some p) c (ds, lg) =
         Inr (ds @ map (\<lambda>m. \<lparr>ContainerName = name, HostnameLabel = m ! 2,
                               IPAddress = IPAddress p\<rparr>)
                      (label_matches (Labels c)), lg')"
  proof (cases "label_matches (Labels c) = []")
    case True
    with a show ?thesis by (simp add: container_step_no_match)
  next
    case False
    with a show ?thesis using container_step_routed[of c name rest p ds lg] by blast
  qed
qed

theorem C7_one_service_per_match_witness:
  "length (fst (projr (container_step (Some proxy1_service) web2 ([], [])))) \<le> 1 \<and>
   (\<exists>lg'. container_step (Some proxy1_service) svc3 ([], []) =
      Inr ([\<lparr>ContainerName = ''/svc3'', HostnameLabel = ''a.io'',
             IPAddress = IPAddress proxy1_service\<rparr>,
            \<lparr>ContainerName = ''/svc3'', HostnameLabel = ''b.io'',
             IPAddress = IPAddress proxy1_service\<rparr>], lg'))"
proof -
  have h: "map_of (Labels web2) ''com.autodns.hostname'' = Some ''app.local'' \<and> ''app.local'' \<noteq> []"
    by (simp add: web2_def)
  have step: "container_step (Some proxy1_service) web2 ([], []) =
     Inr ([\<lparr>ContainerName = ''/web2'', HostnameLabel = ''app.local'',
            IPAddress = ParseIP ''172.17.0.6''\<rparr>], [])"
    by code_simp
  from C7_one_service_per_match[of web2 "Some proxy1_service" "[]" "[]"] h step
  have 1: "length (fst (projr (container_step (Some proxy1_service) web2 ([], [])))) \<le> 1"
    by simp
  have n: "(map_of (Labels svc3) ''com.autodns.hostname'' = None \<or>
       map_of (Labels svc3) ''com.autodns.hostname'' = Some []) \<and> Names svc3 = ''/svc3'' # []"
    by (simp add: svc3_def)
  have m: "label_matches (Labels svc3) =
      [[''traefik.http.routers.a.rule=Host(`a.io`)'', ''a'', ''a.io''],
       [''traefik.http.routers.b.rule=Host(`b.io`)'', ''b'', ''b.io'']]"
    by code_simp
  from C7_one_service_per_match[of svc3 t "[]" "[]" proxy1_service] n
  have 2: "\<exists>lg'. container_step (Some proxy1_service) svc3 ([], []) =
      Inr ([] @ map (\<lambda>m. \<lparr>ContainerName = ''/svc3'', HostnameLabel = m ! 2,
                               IPAddress = IPAddress proxy1_service\<rparr>)
                      (label_matches (Labels svc3)), lg')"
    by blast
  from 1 2 show ?thesis unfolding m by simp
qed

subsection \<open>C8: the values of the table\<close>





subsection \<open>C9: a container off its selected network\<close>

text \<open>
  C9. A container that names itself (a non-empty \<open>com.autodns.hostname\<close>), has no
  non-empty \<open>com.autodns.ip\<close> override and has no attachment under its selected network
  (the value of \<open>com.autodns.network\<close>, or \<open>bridge\<close> when that label is absent) adds no
  service: the services, and so the table built from them, are after its round what
  they were before. Where the container has a name, the round ends with the warning
  that it is skipped.
\<close>

theorem C9_off_network_adds_nothing:
  assumes "map_of (Labels c) ''com.autodns.hostname'' = Some h" and "h \<noteq> []"
    and "map_of (Labels c) ''com.autodns.ip'' = None \<or> map_of (Labels c) ''com.autodns.ip'' = Some []"
    and "map_of (Networks c)
           (case map_of (Labels c) ''com.autodns.network'' of None \<Rightarrow> ''bridge'' | Some n \<Rightarrow> n) = None"
  shows "(\<forall>ds' lg'. container_step t c (ds, lg) = Inr (ds', lg') \<longrightarrow>
            ds' = ds \<and> serviceMap ds' = serviceMap ds) \<and>
         (\<forall>name rest. Names c = name # rest \<longrightarrow>
            container_step t c (ds, lg) =
              Inr (ds, lg @ [(WarnLevel, ''Container `'' @ name @ ''` is not on network `'' @
                                (case map_of (Labels c) ''com.autodns.network'' of
                                   None \<Rightarrow> ''bridge'' | Some n \<Rightarrow> n) @ ''`, skipping'')]))"
proof -
  have ov: "ip_override c = None" using assms(3) by (simp add: ip_override_None_iff)
  have net: "map_of (Networks c) (selected_network c) = None"
    using assms(4) by (simp add: selected_network_def)
  have step: "container_step t c (ds, lg) = self_resolve c h (ds, lg)"
    by (rule container_step_explicit[OF assms(1,2)])
  show ?thesis
    unfolding step using ov net
    by (auto simp: self_resolve_def selected_network_def Let_def split: list.splits)
qed

theorem C9_off_network_adds_nothing_witness:
  "container_step None web3 ([], []) =
     Inr ([], [(WarnLevel, ''Container `/web3` is not on network `backend`, skipping'')])"
proof -
  have 1: "map_of (Labels web3) ''com.autodns.hostname'' = Some ''db.local''"
    and 2: "''db.local'' \<noteq> []"
    and 3: "map_of (Labels web3) ''com.autodns.ip'' = None \<or>
            map_of (Labels web3) ''com.autodns.ip'' = Some []"
    and 4: "map_of (Networks web3)
              (case map_of (Labels web3) ''com.autodns.network'' of
                 None \<Rightarrow> ''bridge'' | Some n \<Rightarrow> n) = None"
    and 5: "Names web3 = ''/web3'' # []"
    by (simp_all add: web3_def)
  have 6: "(case map_of (Labels web3) ''com.autodns.network'' of
              None \<Rightarrow> ''bridge'' | Some n \<Rightarrow> n) = ''backend''"
    by (simp add: web3_def)
  from C9_off_network_adds_nothing[OF 1 2 3 4, of None "[]" "[]"] 5
  have "container_step None web3 ([], []) =
      Inr ([], [] @ [(WarnLevel, ''Container `'' @ ''/web3'' @ ''` is not on network `'' @
                        (case map_of (Labels web3) ''com.autodns.network'' of
                           None \<Rightarrow> ''bridge'' | Some n \<Rightarrow> n) @ ''`, skipping'')])"
    by blast
  then show ?thesis unfolding 6 by simp
qed

subsection \<open>C10: an empty network label\<close>



end
